theory Spec2Isabelle
  imports Complex_Main "HOL-Library.Log_Nat" "HOL-Library.Multiset"
begin

section \<open>JavaScript numbers\<close>

text \<open>
  Every number of the program (seat counts, budgets, price bands, years, scores) is a
  JavaScript Number, an IEEE 754 binary64 value. The model keeps \<open>NaN\<close> and the two
  infinities apart and carries a finite number as the rational it is. Comparisons,
  \<open>Math.max\<close> and negation are exact, as they are in the language; \<open>+\<close>, \<open>-\<close> and
  \<open>*\<close> compute the exact result and round it to binary64: to 53 significant bits,
  nearest, ties to the even significand, and to an infinity from \<open>2^1024\<close> on. The
  numbers that reach the handler (the numbers of a parsed body, the literals of the
  catalog) are binary64 values already; the model does not ask for it. The exponent has
  no lower bound in the model and zero has no sign: on binary64 inputs no sum, difference
  or product of the handler falls inexactly into the subnormal range, and no operation of
  the handler tells the two zeros apart.
\<close>

datatype jsnum = NaN | NegInf | Fin rat | PosInf

text \<open>\<open>a < b\<close>: false as soon as one side is \<open>NaN\<close>.\<close>

fun js_lt :: "jsnum \<Rightarrow> jsnum \<Rightarrow> bool" where
  "js_lt NaN b = False"
| "js_lt a NaN = False"
| "js_lt NegInf NegInf = False"
| "js_lt NegInf b = True"
| "js_lt PosInf b = False"
| "js_lt (Fin x) NegInf = False"
| "js_lt (Fin x) (Fin y) = (x < y)"
| "js_lt (Fin x) PosInf = True"

definition js_gt :: "jsnum \<Rightarrow> jsnum \<Rightarrow> bool" where
  "js_gt a b = js_lt b a"

text \<open>\<open>a <= b\<close> is \<open>!(b < a)\<close>, and false when the comparison is undefined.\<close>

definition js_le :: "jsnum \<Rightarrow> jsnum \<Rightarrow> bool" where
  "js_le a b = (a \<noteq> NaN \<and> b \<noteq> NaN \<and> \<not> js_lt b a)"

definition js_ge :: "jsnum \<Rightarrow> jsnum \<Rightarrow> bool" where
  "js_ge a b = js_le b a"

text \<open>\<open>a === b\<close> on two numbers.\<close>

definition js_seq :: "jsnum \<Rightarrow> jsnum \<Rightarrow> bool" where
  "js_seq a b = (a \<noteq> NaN \<and> a = b)"

text \<open>The binary exponent of a non-zero rational: \<open>floor_log2 x = e\<close> with
  \<open>2^e <= |x| < 2^(e+1)\<close>, from the bit lengths of numerator and denominator.\<close>

definition floor_log2 :: "rat \<Rightarrow> int" where
  "floor_log2 x =
     (let (p, q) = quotient_of \<bar>x\<bar>; d = bitlen p - bitlen q
      in if 2 powi d \<le> \<bar>x\<bar> then d else d - 1)"

text \<open>Rounding to the nearest integer, ties to the even one.\<close>

definition round_half_even :: "rat \<Rightarrow> int" where
  "round_half_even r =
     (let f = \<lfloor>r\<rfloor>; d = r - of_int f
      in if d < 1 / 2 then f else if 1 / 2 < d then f + 1
         else if even f then f else f + 1)"

text \<open>Rounding to 53 significant bits, and the binary64 value of an exact result.\<close>

definition round_to_53 :: "rat \<Rightarrow> rat" where
  "round_to_53 x =
     of_int (round_half_even (x / 2 powi (floor_log2 x - 52))) * 2 powi (floor_log2 x - 52)"

definition round_binary64 :: "rat \<Rightarrow> jsnum" where
  "round_binary64 x =
     (if x = 0 then Fin 0
      else if 2 powi 1024 \<le> \<bar>round_to_53 x\<bar> then (if 0 < x then PosInf else NegInf)
      else Fin (round_to_53 x))"

fun js_neg :: "jsnum \<Rightarrow> jsnum" where
  "js_neg NaN = NaN"
| "js_neg NegInf = PosInf"
| "js_neg (Fin x) = Fin (- x)"
| "js_neg PosInf = NegInf"

fun js_add :: "jsnum \<Rightarrow> jsnum \<Rightarrow> jsnum" where
  "js_add NaN b = NaN"
| "js_add a NaN = NaN"
| "js_add (Fin x) (Fin y) = round_binary64 (x + y)"
| "js_add (Fin x) b = b"
| "js_add a (Fin y) = a"
| "js_add PosInf PosInf = PosInf"
| "js_add NegInf NegInf = NegInf"
| "js_add PosInf NegInf = NaN"
| "js_add NegInf PosInf = NaN"

definition js_sub :: "jsnum \<Rightarrow> jsnum \<Rightarrow> jsnum" where
  "js_sub a b = js_add a (js_neg b)"

fun js_mul :: "jsnum \<Rightarrow> jsnum \<Rightarrow> jsnum" where
  "js_mul NaN b = NaN"
| "js_mul a NaN = NaN"
| "js_mul (Fin x) (Fin y) = round_binary64 (x * y)"
| "js_mul (Fin x) b =
     (if x = 0 then NaN else if 0 < x then b else js_neg b)"
| "js_mul a (Fin y) =
     (if y = 0 then NaN else if 0 < y then a else js_neg a)"
| "js_mul PosInf b = b"
| "js_mul NegInf b = js_neg b"

text \<open>\<open>Math.max(a, b)\<close>: \<open>NaN\<close> when an argument is \<open>NaN\<close>.\<close>

definition Math_max :: "jsnum \<Rightarrow> jsnum \<Rightarrow> jsnum" where
  "Math_max a b = (if a = NaN \<or> b = NaN then NaN else if js_lt a b then b else a)"

text \<open>Truthiness of a number, as \<open>||\<close> tests it: \<open>NaN\<close> and zero are falsy.\<close>

definition js_truthy_num :: "jsnum \<Rightarrow> bool" where
  "js_truthy_num n = (n \<noteq> NaN \<and> n \<noteq> Fin 0)"

text \<open>\<open>Number.isInteger\<close>.\<close>

definition js_isInteger :: "jsnum \<Rightarrow> bool" where
  "js_isInteger n = (case n of Fin x \<Rightarrow> x = of_int \<lfloor>x\<rfloor> | _ \<Rightarrow> False)"

text \<open>
  Reading an array of numbers at an index: out of range the read gives \<open>undefined\<close>,
  which every numeric operator of the program turns into \<open>NaN\<close>.
\<close>

definition num_at :: "jsnum list \<Rightarrow> int \<Rightarrow> jsnum" where
  "num_at xs i = (if 0 \<le> i \<and> i < int (length xs) then xs ! nat i else NaN)"

text \<open>Reading any array at an index: \<open>None\<close> is \<open>undefined\<close>.\<close>

definition elem_at :: "'a list \<Rightarrow> nat \<Rightarrow> 'a option" where
  "elem_at xs i = (if i < length xs then Some (xs ! i) else None)"

section \<open>The catalog\<close>

record car =
  model :: string
  minSeats :: jsnum
  types :: "string list"
  priceBands :: "jsnum list"
  yearsByBand :: "jsnum list"

definition CARS :: "car list" where
  "CARS = [
    \<lparr>model = ''Toyota Camry'', minSeats = Fin 5, types = [''comfort'', ''sedan'', ''economy''],
      priceBands = [Fin 12000, Fin 18000, Fin 25000, Fin 35000],
      yearsByBand = [Fin 2015, Fin 2018, Fin 2021, Fin 2024]\<rparr>,
    \<lparr>model = ''Honda Accord'', minSeats = Fin 5, types = [''comfort'', ''sedan'', ''economy''],
      priceBands = [Fin 12000, Fin 18000, Fin 26000, Fin 36000],
      yearsByBand = [Fin 2015, Fin 2018, Fin 2021, Fin 2024]\<rparr>,
    \<lparr>model = ''Kia Telluride'', minSeats = Fin 7, types = [''comfort'', ''suv'', ''family''],
      priceBands = [Fin 26000, Fin 33000, Fin 42000, Fin 55000],
      yearsByBand = [Fin 2020, Fin 2021, Fin 2022, Fin 2024]\<rparr>,
    \<lparr>model = ''Honda Odyssey'', minSeats = Fin 7, types = [''minivan'', ''family'', ''comfort''],
      priceBands = [Fin 16000, Fin 23000, Fin 32000, Fin 45000],
      yearsByBand = [Fin 2016, Fin 2018, Fin 2021, Fin 2024]\<rparr>,
    \<lparr>model = ''Mercedes-Benz S-Class'', minSeats = Fin 5, types = [''luxury'', ''sedan''],
      priceBands = [Fin 28000, Fin 40000, Fin 65000, Fin 110000],
      yearsByBand = [Fin 2014, Fin 2017, Fin 2020, Fin 2023]\<rparr>,
    \<lparr>model = ''BMW 7 Series'', minSeats = Fin 5, types = [''luxury'', ''sedan''],
      priceBands = [Fin 22000, Fin 35000, Fin 55000, Fin 100000],
      yearsByBand = [Fin 2014, Fin 2017, Fin 2020, Fin 2023]\<rparr>,
    \<lparr>model = ''Lexus LS'', minSeats = Fin 5, types = [''luxury'', ''sedan'', ''comfort''],
      priceBands = [Fin 20000, Fin 30000, Fin 45000, Fin 80000],
      yearsByBand = [Fin 2013, Fin 2016, Fin 2019, Fin 2023]\<rparr>,
    \<lparr>model = ''Cadillac Escalade'', minSeats = Fin 7, types = [''luxury'', ''suv''],
      priceBands = [Fin 30000, Fin 45000, Fin 70000, Fin 110000],
      yearsByBand = [Fin 2015, Fin 2018, Fin 2021, Fin 2024]\<rparr>,
    \<lparr>model = ''Tesla Model S'', minSeats = Fin 5, types = [''luxury'', ''electric'', ''sedan''],
      priceBands = [Fin 26000, Fin 38000, Fin 55000, Fin 90000],
      yearsByBand = [Fin 2014, Fin 2017, Fin 2020, Fin 2023]\<rparr>,
    \<lparr>model = ''Tesla Model 3'', minSeats = Fin 5, types = [''electric'', ''comfort'', ''sedan''],
      priceBands = [Fin 18000, Fin 26000, Fin 35000, Fin 55000],
      yearsByBand = [Fin 2019, Fin 2020, Fin 2021, Fin 2024]\<rparr>,
    \<lparr>model = ''Toyota RAV4'', minSeats = Fin 5, types = [''suv'', ''comfort'', ''economy''],
      priceBands = [Fin 12000, Fin 17000, Fin 26000, Fin 38000],
      yearsByBand = [Fin 2015, Fin 2017, Fin 2020, Fin 2023]\<rparr>,
    \<lparr>model = ''Mazda MX-5 Miata'', minSeats = Fin 2, types = [''sport'', ''roadster''],
      priceBands = [Fin 12000, Fin 18000, Fin 26000, Fin 36000],
      yearsByBand = [Fin 2014, Fin 2016, Fin 2019, Fin 2023]\<rparr>,
    \<lparr>model = ''Porsche 911'', minSeats = Fin 4, types = [''sport'', ''luxury''],
      priceBands = [Fin 45000, Fin 70000, Fin 110000, Fin 180000],
      yearsByBand = [Fin 2009, Fin 2014, Fin 2017, Fin 2022]\<rparr>,
    \<lparr>model = ''Chevrolet Corvette'', minSeats = Fin 2, types = [''sport''],
      priceBands = [Fin 35000, Fin 50000, Fin 70000, Fin 120000],
      yearsByBand = [Fin 2014, Fin 2017, Fin 2020, Fin 2023]\<rparr>,
    \<lparr>model = ''BMW M3'', minSeats = Fin 5, types = [''sport'', ''sedan''],
      priceBands = [Fin 30000, Fin 45000, Fin 65000, Fin 90000],
      yearsByBand = [Fin 2015, Fin 2018, Fin 2021, Fin 2023]\<rparr>,
    \<lparr>model = ''Ford Mustang'', minSeats = Fin 4, types = [''sport'', ''coupe''],
      priceBands = [Fin 15000, Fin 22000, Fin 32000, Fin 50000],
      yearsByBand = [Fin 2015, Fin 2017, Fin 2020, Fin 2023]\<rparr>
  ]"

section \<open>pickYearForBudget and affordabilityScore\<close>

text \<open>
  The loop of \<open>pickYearForBudget\<close> runs \<open>i\<close> from \<open>priceBands.length - 1\<close> down to
  \<open>0\<close>. The counter of \<open>pickYear_loop\<close> is \<open>i + 1\<close>: at \<open>Suc i\<close> the body tests
  band \<open>i\<close>, at \<open>0\<close> the loop is over and \<open>yearsByBand[0]\<close> is returned.
\<close>

fun pickYear_loop :: "jsnum list \<Rightarrow> 'y list \<Rightarrow> jsnum \<Rightarrow> nat \<Rightarrow> 'y option" where
  "pickYear_loop pb yb budget 0 = elem_at yb 0"
| "pickYear_loop pb yb budget (Suc i) =
     (if js_ge budget (num_at pb (int i)) then elem_at yb i
      else pickYear_loop pb yb budget i)"

definition pickYearForBudget :: "jsnum list \<Rightarrow> 'y list \<Rightarrow> jsnum \<Rightarrow> 'y option" where
  "pickYearForBudget pb yb budget = pickYear_loop pb yb budget (length pb)"

definition affordabilityScore :: "jsnum list \<Rightarrow> jsnum \<Rightarrow> jsnum" where
  "affordabilityScore pb budget =
     (let minBand = num_at pb 0;
          maxBand = num_at pb (int (length pb) - 1)
      in if js_ge budget minBand \<and> js_le budget maxBand then Fin 0
         else if js_lt budget minBand then js_sub minBand budget
         else js_sub budget maxBand)"

section \<open>The request body\<close>

text \<open>
  \<open>express.json()\<close> hands the handler the parsed JSON body; a field that is absent
  reads as \<open>undefined\<close>, which is \<open>None\<close> below. An object keeps its members
  in document order; \<open>JSON.parse\<close> lets the last of two equal keys win, and makes every
  member an own property (also one named \<open>toString\<close>).
\<close>

datatype json =
    JNull
  | JBool bool
  | JNum jsnum
  | JStr string
  | JArr "json list"
  | JObj "(string \<times> json) list"

datatype js_error = TypeError | RangeError

text \<open>
  Three things are left open and are parameters of the handler, so that what is proved
  holds whatever they are: the parse of a string as a number (\<open>StringToNumber\<close>), the
  printing of a number (\<open>Number::toString\<close>), and how many array conversions nested in
  one another the call stack of the engine holds (\<open>stackDepth\<close>).
\<close>

record builtins =
  StringToNumber :: "string \<Rightarrow> jsnum"
  NumberToString :: "jsnum \<Rightarrow> string"
  stackDepth :: nat

text \<open>\<open>Array.prototype.join\<close> with the separator \<open>,\<close> over the converted elements;
  the first element whose conversion throws ends it.\<close>

fun join_comma :: "(js_error + string) list \<Rightarrow> js_error + string" where
  "join_comma [] = Inr []"
| "join_comma [r] = r"
| "join_comma (r # rs) =
     (case r of
        Inl e \<Rightarrow> Inl e
      | Inr s \<Rightarrow> (case join_comma rs of Inl e \<Rightarrow> Inl e | Inr t \<Rightarrow> Inr (s @ '','' @ t)))"

text \<open>
  \<open>String(v)\<close> on a parsed JSON value. An array is joined, \<open>null\<close> elements printing
  as the empty string; the conversion of an array inside an array is a nested call, and
  the engine throws a RangeError when the nesting exceeds what its stack holds. An object
  goes through \<open>OrdinaryToPrimitive\<close>: its \<open>toString\<close> is called when callable and
  gives \<open>[object Object]\<close>; an own member named \<open>toString\<close> hides the inherited
  method and, being JSON data, is not callable; \<open>valueOf\<close> is then either such a
  member too or the inherited one that returns the object itself, and the conversion
  throws a TypeError.
\<close>

fun js_String_at :: "builtins \<Rightarrow> nat \<Rightarrow> json \<Rightarrow> js_error + string" where
  "js_String_at B d JNull = Inr ''null''"
| "js_String_at B d (JBool b) = Inr (if b then ''true'' else ''false'')"
| "js_String_at B d (JNum n) = Inr (NumberToString B n)"
| "js_String_at B d (JStr s) = Inr s"
| "js_String_at B 0 (JArr xs) = Inl RangeError"
| "js_String_at B (Suc d) (JArr xs) =
     join_comma (map (\<lambda>x. case x of JNull \<Rightarrow> Inr [] | _ \<Rightarrow> js_String_at B d x) xs)"
| "js_String_at B d (JObj kvs) =
     (if ''toString'' \<in> fst ` set kvs then Inl TypeError else Inr ''[object Object]'')"

definition js_String :: "builtins \<Rightarrow> json \<Rightarrow> js_error + string" where
  "js_String B v = js_String_at B (stackDepth B) v"

text \<open>\<open>Number(v)\<close> on a field of the body: arrays and objects are first turned into
  a string as above (for them the number hint reaches \<open>toString\<close> as well).\<close>

fun js_Number :: "builtins \<Rightarrow> json option \<Rightarrow> js_error + jsnum" where
  "js_Number B None = Inr NaN"
| "js_Number B (Some JNull) = Inr (Fin 0)"
| "js_Number B (Some (JBool b)) = Inr (if b then Fin 1 else Fin 0)"
| "js_Number B (Some (JNum n)) = Inr n"
| "js_Number B (Some (JStr s)) = Inr (StringToNumber B s)"
| "js_Number B (Some v) =
     (case js_String B v of Inl e \<Rightarrow> Inl e | Inr s \<Rightarrow> Inr (StringToNumber B s))"

text \<open>Truthiness of a field, as \<open>||\<close> tests it.\<close>

fun js_truthy :: "json option \<Rightarrow> bool" where
  "js_truthy None = False"
| "js_truthy (Some JNull) = False"
| "js_truthy (Some (JBool b)) = b"
| "js_truthy (Some (JNum n)) = js_truthy_num n"
| "js_truthy (Some (JStr s)) = (s \<noteq> [])"
| "js_truthy (Some (JArr xs)) = True"
| "js_truthy (Some (JObj kvs)) = True"

text \<open>\<open>toLowerCase\<close> on the ASCII letters; strings are byte strings and every other
  byte is kept.\<close>

definition lower_char :: "char \<Rightarrow> char" where
  "lower_char c =
     (let n = (of_char c :: nat) in if 65 \<le> n \<and> n \<le> 90 then char_of (n + 32) else c)"

definition toLowerCase :: "string \<Rightarrow> string" where
  "toLowerCase s = map lower_char s"

text \<open>The destructuring \<open>const { seats, budget, type } = req.body || {}\<close>: only an
  object has such members.\<close>

fun field :: "json option \<Rightarrow> string \<Rightarrow> json option" where
  "field (Some (JObj kvs)) k = map_of (rev kvs) k"
| "field body k = None"

section \<open>The search handler\<close>

record result =
  r_model :: string
  year :: "jsnum option"
  seats :: jsnum
  typeMatches :: "string list"
  score :: jsnum

record response =
  results :: "result list"
  relaxed :: bool

text \<open>
  \<open>Array.prototype.sort\<close> is stable; with the comparator \<open>cmp\<close> an element goes
  behind every earlier-placed element it does not have to precede, that is, \<open>x\<close> moves
  past \<open>y\<close> only when \<open>cmp(x, y) > 0\<close>.
\<close>

fun insort_cmp :: "('a \<Rightarrow> 'a \<Rightarrow> jsnum) \<Rightarrow> 'a \<Rightarrow> 'a list \<Rightarrow> 'a list" where
  "insort_cmp cmp x [] = [x]"
| "insort_cmp cmp x (y # ys) =
     (if js_gt (cmp x y) (Fin 0) then y # insort_cmp cmp x ys else x # y # ys)"

definition js_sort :: "('a \<Rightarrow> 'a \<Rightarrow> jsnum) \<Rightarrow> 'a list \<Rightarrow> 'a list" where
  "js_sort cmp xs = foldr (insort_cmp cmp) xs []"

definition by_score :: "result \<Rightarrow> result \<Rightarrow> jsnum" where
  "by_score a b = js_sub (score a) (score b)"

definition seat_filter :: "jsnum \<Rightarrow> car \<Rightarrow> bool" where
  "seat_filter wantSeats c =
     (js_ge (minSeats c) wantSeats \<or> js_seq (minSeats c) wantSeats
      \<or> js_gt (minSeats c) (js_sub wantSeats (Fin 1)))"

definition type_filter :: "string \<Rightarrow> car \<Rightarrow> bool" where
  "type_filter wantType c = (wantType = [] \<or> wantType \<in> set (types c))"

definition base_score :: "jsnum \<Rightarrow> jsnum \<Rightarrow> car \<Rightarrow> jsnum" where
  "base_score wantSeats wantBudget c =
     js_add (affordabilityScore (priceBands c) wantBudget)
            (js_mul (Math_max (Fin 0) (js_sub wantSeats (minSeats c))) (Fin 5000))"

definition match_of :: "jsnum \<Rightarrow> jsnum \<Rightarrow> car \<Rightarrow> result" where
  "match_of wantSeats wantBudget c =
     \<lparr>r_model = model c,
      year = pickYearForBudget (priceBands c) (yearsByBand c) wantBudget,
      seats = minSeats c,
      typeMatches = types c,
      score = base_score wantSeats wantBudget c\<rparr>"

definition relaxed_of :: "jsnum \<Rightarrow> jsnum \<Rightarrow> car \<Rightarrow> result" where
  "relaxed_of wantSeats wantBudget c =
     \<lparr>r_model = model c,
      year = pickYearForBudget (priceBands c) (yearsByBand c) wantBudget,
      seats = minSeats c,
      typeMatches = types c,
      score = js_add (base_score wantSeats wantBudget c) (Fin 10000)\<rparr>"

text \<open>The body of the handler once the three inputs are coerced. The \<open>links\<close> member
  of a result is built from \<open>year\<close> and \<open>model\<close> alone and is left out.\<close>

definition search_coerced :: "jsnum \<Rightarrow> jsnum \<Rightarrow> string \<Rightarrow> response" where
  "search_coerced wantSeats wantBudget wantType =
     (let matches =
            take 5 (js_sort by_score (map (match_of wantSeats wantBudget)
              (filter (type_filter wantType) (filter (seat_filter wantSeats) CARS))))
      in if length matches = 0
         then let rel =
                    take 5 (js_sort by_score (map (relaxed_of wantSeats wantBudget)
                      (filter (\<lambda>c. js_ge (minSeats c) wantSeats) CARS)))
              in \<lparr>results = rel, relaxed = True\<rparr>
         else \<lparr>results = matches, relaxed = False\<rparr>)"

text \<open>The three coercions, in the order the handler evaluates them.\<close>

definition wantSeats_of :: "builtins \<Rightarrow> json option \<Rightarrow> js_error + jsnum" where
  "wantSeats_of B body =
     (case js_Number B (field body ''seats'') of
        Inl e \<Rightarrow> Inl e
      | Inr n \<Rightarrow> Inr (if js_truthy_num n then n else Fin 4))"

definition wantBudget_of :: "builtins \<Rightarrow> json option \<Rightarrow> js_error + jsnum" where
  "wantBudget_of B body =
     (case js_Number B (field body ''budget'') of
        Inl e \<Rightarrow> Inl e
      | Inr n \<Rightarrow> Inr (if js_truthy_num n then n else Fin 20000))"

definition wantType_of :: "builtins \<Rightarrow> json option \<Rightarrow> js_error + string" where
  "wantType_of B body =
     (case (case field body ''type'' of
              Some v \<Rightarrow> if js_truthy (Some v) then js_String B v else Inr []
            | None \<Rightarrow> Inr []) of
        Inl e \<Rightarrow> Inl e
      | Inr s \<Rightarrow> Inr (toLowerCase s))"

definition search :: "builtins \<Rightarrow> json option \<Rightarrow> js_error + response" where
  "search B body =
     (case wantSeats_of B body of
        Inl e \<Rightarrow> Inl e
      | Inr wantSeats \<Rightarrow>
          (case wantBudget_of B body of
             Inl e \<Rightarrow> Inl e
           | Inr wantBudget \<Rightarrow>
               (case wantType_of B body of
                  Inl e \<Rightarrow> Inl e
                | Inr wantType \<Rightarrow> Inr (search_coerced wantSeats wantBudget wantType))))"

section \<open>Notions of the specification\<close>

text \<open>The data-model invariant of a catalog record, in the specification's words:
  \<open>priceBands\<close> strictly ascending, four of them, and as many years as bands.\<close>

definition band_invariant :: "car \<Rightarrow> bool" where
  "band_invariant c =
     (sorted_wrt js_lt (priceBands c) \<and> length (priceBands c) = 4
      \<and> length (yearsByBand c) = length (priceBands c))"

text \<open>\<open>Math.min\<close>, and the least and greatest band of a sequence as
  \<open>Math.min(...priceBands)\<close> and \<open>Math.max(...priceBands)\<close> compute them.\<close>

definition Math_min :: "jsnum \<Rightarrow> jsnum \<Rightarrow> jsnum" where
  "Math_min a b = (if a = NaN \<or> b = NaN then NaN else if js_lt b a then b else a)"

definition min_band :: "jsnum list \<Rightarrow> jsnum" where
  "min_band pb = foldr Math_min pb PosInf"

definition max_band :: "jsnum list \<Rightarrow> jsnum" where
  "max_band pb = foldr Math_max pb NegInf"

text \<open>An instance of the parameters, for running the handler on example requests: no
  string parses as a number, every number prints as \<open>0\<close>, and the stack holds a
  thousand nested conversions.\<close>

definition plain_builtins :: builtins where
  "plain_builtins =
     \<lparr>StringToNumber = (\<lambda>s. NaN), NumberToString = (\<lambda>n. ''0''), stackDepth = 1000\<rparr>"

text \<open>The order the results are to be in: non-decreasing score.\<close>

definition score_le :: "result \<Rightarrow> result \<Rightarrow> bool" where
  "score_le a b = js_le (score a) (score b)"

text \<open>Requests used as examples: the specification's luxury search, a type no record
  has, the same with a fractional seat count and with a budget of \<open>1e22\<close>, and a
  \<open>seats\<close> object with a member named \<open>toString\<close>.\<close>

definition luxury_request :: "json option" where
  "luxury_request =
     Some (JObj [(''seats'', JNum (Fin 5)), (''budget'', JNum (Fin 30000)),
                 (''type'', JStr ''luxury'')])"

definition hovercar_request :: "json option" where
  "hovercar_request =
     Some (JObj [(''seats'', JNum (Fin 5)), (''budget'', JNum (Fin 30000)),
                 (''type'', JStr ''hovercar'')])"

definition fraction_request :: "json option" where
  "fraction_request =
     Some (JObj [(''seats'', JNum (Fin (9 / 2))), (''budget'', JNum (Fin 200000)),
                 (''type'', JStr ''hovercar'')])"

definition huge_budget_request :: "json option" where
  "huge_budget_request =
     Some (JObj [(''seats'', JNum (Fin 7)), (''budget'', JNum (Fin 10000000000000000000000)),
                 (''type'', JStr ''hovercar'')])"

definition toString_request :: "json option" where
  "toString_request = Some (JObj [(''seats'', JObj [(''toString'', JNum (Fin 0))])])"

text \<open>A record's result in the relaxed pass, from its result in the primary pass: the
  same result with 10000 added to the score.\<close>

definition penalised :: "jsnum \<Rightarrow> jsnum \<Rightarrow> car \<Rightarrow> result" where
  "penalised wantSeats wantBudget c =
     (match_of wantSeats wantBudget c)
       \<lparr>score := js_add (score (match_of wantSeats wantBudget c)) (Fin 10000)\<rparr>"

section \<open>Rounding to binary64\<close>

lemma two_powi_pos: "0 < (2::rat) powi n"
  by (simp add: power_int_def)

lemma two_powi_add: "(2::rat) powi (m + n) = 2 powi m * 2 powi n"
  by (simp add: power_int_add)

lemma two_powi_diff: "(2::rat) powi (m - n) = 2 powi m / 2 powi n"
  by (simp add: power_int_diff)

lemma two_powi_le: "(2::rat) powi m \<le> 2 powi n \<longleftrightarrow> m \<le> n"
proof
  assume "(2::rat) powi m \<le> 2 powi n"
  show "m \<le> n"
  proof (rule ccontr)
    assume "\<not> m \<le> n"
    then have "n < m" by simp
    then have "(2::rat) powi n < 2 powi m" by (intro power_int_strict_increasing) simp_all
    with \<open>(2::rat) powi m \<le> 2 powi n\<close> show False by simp
  qed
next
  assume "m \<le> n"
  then show "(2::rat) powi m \<le> 2 powi n" by (intro power_int_increasing) simp_all
qed

lemma two_powi_less: "(2::rat) powi m < 2 powi n \<longleftrightarrow> m < n"
  using two_powi_le [of n m] by (auto simp: not_le [symmetric])

lemma int_pow_bounds:
  assumes "0 < (p::int)"
  shows "(2::rat) powi (bitlen p - 1) \<le> of_int p" and "of_int p < (2::rat) powi (bitlen p)"
proof -
  from bitlen_bounds [OF assms] have a: "2 ^ nat (bitlen p - 1) \<le> p" and b: "p < 2 ^ nat (bitlen p)"
    by simp_all
  have ge1: "1 \<le> bitlen p" using assms bitlen_eq_zero_iff [of p] bitlen_nonneg [of p] by linarith
  have "(2::rat) powi (bitlen p - 1) = 2 ^ nat (bitlen p - 1)"
    using ge1 by (simp add: power_int_def)
  also have "\<dots> = of_int (2 ^ nat (bitlen p - 1))" by simp
  also have "\<dots> \<le> of_int p" using a by (simp only: of_int_le_iff)
  finally show "(2::rat) powi (bitlen p - 1) \<le> of_int p" .
  have "(of_int p :: rat) < of_int (2 ^ nat (bitlen p))" using b by (simp only: of_int_less_iff)
  also have "\<dots> = 2 powi (bitlen p)" using ge1 by (simp add: power_int_def)
  finally show "of_int p < (2::rat) powi (bitlen p)" .
qed

lemma floor_log2_bounds:
  assumes "x \<noteq> 0"
  shows "2 powi (floor_log2 x) \<le> \<bar>x\<bar>" and "\<bar>x\<bar> < 2 powi (floor_log2 x + 1)"
proof -
  obtain p q where pq: "quotient_of \<bar>x\<bar> = (p, q)" by (cases "quotient_of \<bar>x\<bar>")
  have q: "0 < q" using pq by (rule quotient_of_denom_pos)
  have x: "\<bar>x\<bar> = of_int p / of_int q" using pq by (rule quotient_of_div)
  have p: "0 < p"
  proof -
    have "0 < \<bar>x\<bar>" using assms by simp
    then have "0 < (of_int p :: rat) / of_int q" by (simp add: x)
    with q show ?thesis by (simp add: zero_less_divide_iff)
  qed
  define d where "d = bitlen p - bitlen q"
  note P = int_pow_bounds [OF p] and Q = int_pow_bounds [OF q]
  have qpos: "0 < (of_int q :: rat)" using q by simp
  have lo: "2 powi (d - 1) \<le> \<bar>x\<bar>"
  proof -
    have "(2::rat) powi (d - 1) = 2 powi (bitlen p - 1) / 2 powi (bitlen q)"
      by (simp add: d_def two_powi_diff [symmetric] algebra_simps)
    also have "\<dots> \<le> of_int p / 2 powi (bitlen q)"
      using P(1) two_powi_pos [of "bitlen q"] by (simp add: divide_right_mono)
    also have "\<dots> \<le> of_int p / of_int q"
      using Q(2) p qpos by (intro divide_left_mono) (simp_all add: two_powi_pos)
    finally show ?thesis by (simp add: x)
  qed
  have hi: "\<bar>x\<bar> < 2 powi (d + 1)"
  proof -
    have "\<bar>x\<bar> = of_int p / of_int q" by (rule x)
    also have "\<dots> < 2 powi (bitlen p) / of_int q"
      using P(2) qpos by (simp add: divide_strict_right_mono)
    also have "\<dots> \<le> 2 powi (bitlen p) / 2 powi (bitlen q - 1)"
      using Q(1) two_powi_pos [of "bitlen q - 1"] two_powi_pos [of "bitlen p"]
      by (intro divide_left_mono mult_pos_pos) (simp_all add: q)
    also have "\<dots> = 2 powi (d + 1)"
      by (simp add: d_def two_powi_diff [symmetric] algebra_simps)
    finally show ?thesis .
  qed
  have e: "floor_log2 x = (if 2 powi d \<le> \<bar>x\<bar> then d else d - 1)"
    by (simp add: floor_log2_def pq d_def Let_def)
  show "2 powi (floor_log2 x) \<le> \<bar>x\<bar>" using lo by (simp add: e)
  show "\<bar>x\<bar> < 2 powi (floor_log2 x + 1)" using hi by (auto simp: e not_le)
qed

lemma floor_log2_unique:
  assumes "2 powi e \<le> \<bar>x\<bar>" and "\<bar>x\<bar> < 2 powi (e + 1)"
  shows "floor_log2 x = e"
proof -
  have nz: "x \<noteq> 0"
  proof
    assume "x = 0"
    with assms(1) have "(2::rat) powi e \<le> 0" by simp
    with two_powi_pos [of e] show False by linarith
  qed
  note B = floor_log2_bounds [OF nz]
  have "(2::rat) powi e < 2 powi (floor_log2 x + 1)" using assms(1) B(2) by simp
  then have 1: "e < floor_log2 x + 1" by (simp add: two_powi_less)
  have "(2::rat) powi (floor_log2 x) < 2 powi (e + 1)" using assms(2) B(1) by simp
  then have 2: "floor_log2 x < e + 1" by (simp add: two_powi_less)
  from 1 2 show ?thesis by simp
qed

lemma floor_log2_minus: "floor_log2 (- x) = floor_log2 x"
  by (simp add: floor_log2_def)

lemma round_half_even_of_int: "round_half_even (of_int k) = k"
  by (simp add: round_half_even_def)

lemma round_half_even_ge: "of_int k \<le> r \<Longrightarrow> k \<le> round_half_even r"
proof -
  assume "of_int k \<le> r"
  then have "k \<le> \<lfloor>r\<rfloor>" by (simp add: le_floor_iff)
  then show ?thesis by (simp add: round_half_even_def Let_def)
qed

lemma round_half_even_le: "r \<le> of_int k \<Longrightarrow> round_half_even r \<le> k"
proof -
  assume a: "r \<le> of_int k"
  show ?thesis
  proof (cases "r = of_int k")
    case True
    then show ?thesis by (simp add: round_half_even_of_int)
  next
    case False
    with a have "r < of_int k" by simp
    then have "\<lfloor>r\<rfloor> < k" by (simp add: floor_less_iff)
    then show ?thesis by (simp add: round_half_even_def Let_def)
  qed
qed

lemma round_half_even_minus: "round_half_even (- r) = - round_half_even r"
proof (cases "r = of_int \<lfloor>r\<rfloor>")
  case True
  then obtain k where "r = of_int k" ..
  then show ?thesis using round_half_even_of_int [of "- k"] by (simp add: round_half_even_of_int)
next
  case False
  then have nint: "r \<notin> \<int>" by (metis Ints_cases floor_of_int)
  have fl: "\<lfloor>- r\<rfloor> = - \<lfloor>r\<rfloor> - 1"
    using nint False by (simp add: floor_minus ceiling_altdef)
  define f where "f = \<lfloor>r\<rfloor>"
  define d where "d = r - of_int f"
  have d: "0 < d" "d < 1"
    using False floor_correct [of r] of_int_floor_le [of r] by (auto simp: d_def f_def less_le)
  have r: "r = of_int f + d" by (simp add: d_def)
  have d': "- r - of_int (- f - 1) = 1 - d" by (simp add: r)
  show ?thesis
    unfolding round_half_even_def fl f_def [symmetric] Let_def d' d_def [symmetric]
    using d by (auto simp: algebra_simps)
qed


lemma mant_bounds:
  assumes "0 < x"
  shows "2 ^ 52 \<le> x / 2 powi (floor_log2 x - 52)" and "x / 2 powi (floor_log2 x - 52) < 2 ^ 53"
proof -
  have nz: "x \<noteq> 0" using assms by simp
  from floor_log2_bounds [OF nz] assms
  have lo: "2 powi (floor_log2 x) \<le> x" and hi: "x < 2 powi (floor_log2 x + 1)" by simp_all
  have q: "0 < (2::rat) powi (floor_log2 x - 52)" by (rule two_powi_pos)
  have "(2::rat) ^ 52 = 2 powi (floor_log2 x) / 2 powi (floor_log2 x - 52)"
    by (simp add: two_powi_diff [symmetric])
  also have "\<dots> \<le> x / 2 powi (floor_log2 x - 52)"
    using lo q by (simp add: divide_right_mono)
  finally show "2 ^ 52 \<le> x / 2 powi (floor_log2 x - 52)" .
  have "x / 2 powi (floor_log2 x - 52) < 2 powi (floor_log2 x + 1) / 2 powi (floor_log2 x - 52)"
    using hi q by (simp add: divide_strict_right_mono)
  also have "\<dots> = 2 ^ 53" by (simp add: two_powi_diff [symmetric])
  finally show "x / 2 powi (floor_log2 x - 52) < 2 ^ 53" .
qed

lemma round_half_even_mant:
  assumes "0 < x"
  shows "2 ^ 52 \<le> round_half_even (x / 2 powi (floor_log2 x - 52))" and "round_half_even (x / 2 powi (floor_log2 x - 52)) \<le> 2 ^ 53"
proof -
  note M = mant_bounds [OF assms]
  have "rat_of_int (2 ^ 52) \<le> x / 2 powi (floor_log2 x - 52)" using M(1) by simp
  then show "2 ^ 52 \<le> round_half_even (x / 2 powi (floor_log2 x - 52))" by (rule round_half_even_ge)
  have "x / 2 powi (floor_log2 x - 52) \<le> rat_of_int (2 ^ 53)" using M(2) by simp
  then show "round_half_even (x / 2 powi (floor_log2 x - 52)) \<le> 2 ^ 53" by (rule round_half_even_le)
qed

lemma round_binary64_unfold:
  "round_binary64 x = (if x = 0 then Fin 0
            else if 2 powi 1024 \<le> \<bar>round_to_53 x\<bar> then (if 0 < x then PosInf else NegInf)
            else Fin (round_to_53 x))"
  by (simp add: round_binary64_def)

lemma round_to_53_minus: "round_to_53 (- x) = - round_to_53 x"
  by (simp add: round_to_53_def floor_log2_minus round_half_even_minus)

lemma round_to_53_pos:
  assumes "0 < x"
  shows "2 powi (floor_log2 x) \<le> round_to_53 x" and "round_to_53 x \<le> 2 powi (floor_log2 x + 1)"
proof -
  note R = round_half_even_mant [OF assms]
  have q: "0 < (2::rat) powi (floor_log2 x - 52)" by (rule two_powi_pos)
  then have q0: "0 \<le> (2::rat) powi (floor_log2 x - 52)" by simp
  have "(2::rat) powi (floor_log2 x) = 2 ^ 52 * 2 powi (floor_log2 x - 52)"
    by (simp add: two_powi_diff)
  also have "\<dots> = rat_of_int (2 ^ 52) * 2 powi (floor_log2 x - 52)" by simp
  also have "\<dots> \<le> round_to_53 x"
  proof -
    have "rat_of_int (2 ^ 52) \<le> rat_of_int (round_half_even (x / 2 powi (floor_log2 x - 52)))"
      using R(1) by (simp only: of_int_le_iff)
    then show ?thesis unfolding round_to_53_def using q0 by (rule mult_right_mono)
  qed
  finally show "2 powi (floor_log2 x) \<le> round_to_53 x" .
  have "round_to_53 x \<le> rat_of_int (2 ^ 53) * 2 powi (floor_log2 x - 52)"
  proof -
    have "rat_of_int (round_half_even (x / 2 powi (floor_log2 x - 52))) \<le> rat_of_int (2 ^ 53)"
      using R(2) by (simp only: of_int_le_iff)
    then show ?thesis unfolding round_to_53_def using q0 by (rule mult_right_mono)
  qed
  also have "\<dots> = 2 powi (floor_log2 x + 1)"
    by (simp add: two_powi_diff two_powi_add)
  finally show "round_to_53 x \<le> 2 powi (floor_log2 x + 1)" .
qed

lemma round_binary64_minus: "round_binary64 (- x) = js_neg (round_binary64 x)"
  by (simp add: round_binary64_unfold round_to_53_minus)

lemma round_binary64_pos:
  assumes "0 < x"
  shows "round_binary64 x = PosInf \<or> (round_binary64 x = Fin (round_to_53 x) \<and> 2 powi (floor_log2 x) \<le> round_to_53 x)"
  using assms round_to_53_pos [OF assms] by (simp add: round_binary64_unfold)

lemma round_binary64_zero_iff [simp]: "round_binary64 x = Fin 0 \<longleftrightarrow> x = 0"
proof
  assume a: "round_binary64 x = Fin 0"
  show "x = 0"
  proof (rule ccontr)
    assume nz: "x \<noteq> 0"
    show False
    proof (cases "0 < x")
      case True
      from round_binary64_pos [OF True] a have "2 powi (floor_log2 x) \<le> (0::rat)" by auto
      with two_powi_pos [of "floor_log2 x"] show False by linarith
    next
      case False
      with nz have p: "0 < - x" by simp
      from a have "round_binary64 (- x) = Fin 0" by (simp add: round_binary64_minus)
      with round_binary64_pos [OF p] have "2 powi (floor_log2 (- x)) \<le> (0::rat)" by auto
      with two_powi_pos [of "floor_log2 (- x)"] show False by linarith
    qed
  qed
next
  assume "x = 0"
  then show "round_binary64 x = Fin 0" by (simp add: round_binary64_unfold)
qed

lemma round_binary64_0 [simp]: "round_binary64 0 = Fin 0"
  by (simp add: round_binary64_def)

lemma round_binary64_not_NaN: "round_binary64 x \<noteq> NaN"
  by (simp add: round_binary64_unfold)

lemma round_binary64_ge_pow:
  assumes "2 powi j \<le> x"
  shows "round_binary64 x = PosInf \<or> (\<exists>v. round_binary64 x = Fin v \<and> 2 powi j \<le> v)"
proof -
  have pos: "0 < x" using assms two_powi_pos [of j] by linarith
  have nz: "x \<noteq> 0" using pos by simp
  from floor_log2_bounds(2) [OF nz] pos assms have "(2::rat) powi j < 2 powi (floor_log2 x + 1)" by simp
  then have "j \<le> floor_log2 x" by (simp add: two_powi_less)
  then have "(2::rat) powi j \<le> 2 powi (floor_log2 x)" by (simp add: two_powi_le)
  with round_binary64_pos [OF pos] show ?thesis by force
qed

lemma round_binary64_exact:
  assumes x: "x = of_int k * 2 powi j" and k: "\<bar>k\<bar> \<le> 2 ^ 53" and r: "\<bar>x\<bar> < 2 powi 1024"
  shows "round_binary64 x = Fin x"
proof (cases "x = 0")
  case True
  then show ?thesis by (simp add: round_binary64_unfold)
next
  case False
  define e where "e = floor_log2 x"
  note B = floor_log2_bounds [OF False, folded e_def]
  have ax: "\<bar>x\<bar> = of_int \<bar>k\<bar> * 2 powi j"
    using two_powi_pos [of j] by (simp add: x abs_mult)
  have "\<bar>x\<bar> \<le> of_int (2 ^ 53) * 2 powi j"
  proof -
    have "rat_of_int \<bar>k\<bar> \<le> rat_of_int (2 ^ 53)" using k by (simp only: of_int_le_iff)
    moreover have "0 \<le> (2::rat) powi j" using two_powi_pos [of j] by simp
    ultimately show ?thesis unfolding ax by (rule mult_right_mono)
  qed
  also have "\<dots> = 2 powi (53 + j)" by (simp add: two_powi_add)
  finally have up: "\<bar>x\<bar> \<le> 2 powi (53 + j)" .
  with B(1) have "(2::rat) powi e \<le> 2 powi (53 + j)" by simp
  then have ej: "e \<le> 53 + j" by (simp add: two_powi_le)
  have int: "\<exists>n. x / 2 powi (e - 52) = of_int n"
  proof (cases "e \<le> 52 + j")
    case True
    define m where "m = nat (j - e + 52)"
    have "x / 2 powi (e - 52) = of_int k * 2 powi (j - (e - 52))"
      by (simp add: x two_powi_diff)
    also have "j - (e - 52) = int m" using True by (simp add: m_def)
    also have "of_int k * (2::rat) powi (int m) = of_int (k * 2 ^ m)" by simp
    finally show ?thesis by blast
  next
    case False
    with ej have e: "e = 53 + j" by simp
    from B(1) up have "\<bar>x\<bar> = 2 powi (53 + j)" by (simp add: e)
    then have "of_int \<bar>k\<bar> * (2::rat) powi j = 2 ^ 53 * 2 powi j"
      by (simp add: ax two_powi_add)
    then have "(of_int \<bar>k\<bar> :: rat) = 2 ^ 53" using two_powi_pos [of j] by simp
    then have "(of_int \<bar>k\<bar> :: rat) = of_int (2 ^ 53)" by simp
    then have ak: "\<bar>k\<bar> = 2 ^ 53" by (simp only: of_int_eq_iff)
    have "x / 2 powi (e - 52) = of_int k * 2 powi (j - (e - 52))"
      by (simp add: x two_powi_diff)
    also have "j - (e - 52) = - 1" by (simp add: e)
    also have "of_int k * (2::rat) powi (- 1) = of_int k / 2" by (simp add: power_int_def)
    finally have h: "x / 2 powi (e - 52) = of_int k / 2" .
    from ak have "k = 2 ^ 53 \<or> k = - (2 ^ 53)" by linarith
    then show ?thesis
    proof
      assume "k = 2 ^ 53"
      then have "x / 2 powi (e - 52) = of_int (2 ^ 52)" by (simp add: h)
      then show ?thesis by blast
    next
      assume "k = - (2 ^ 53)"
      then have "x / 2 powi (e - 52) = of_int (- (2 ^ 52))" by (simp add: h)
      then show ?thesis by blast
    qed
  qed
  then obtain n where n: "x / 2 powi (e - 52) = of_int n" ..
  have "round_to_53 x = of_int n * 2 powi (e - 52)"
    by (simp add: round_to_53_def e_def [symmetric] n round_half_even_of_int)
  also have "\<dots> = x" using n two_powi_pos [of "e - 52"] by (simp add: field_simps)
  finally have "round_to_53 x = x" .
  with r False show ?thesis by (simp add: round_binary64_unfold)
qed

lemma round_binary64_idem:
  assumes "round_binary64 x = Fin v"
  shows "round_binary64 v = Fin v"
proof (cases "x = 0")
  case True
  with assms show ?thesis by (simp add: round_binary64_unfold)
next
  case False
  from assms False have v: "v = round_to_53 x" and r: "\<bar>round_to_53 x\<bar> < 2 powi 1024"
    by (auto simp: round_binary64_unfold split: if_splits)
  have k: "\<bar>round_half_even (x / 2 powi (floor_log2 x - 52))\<bar> \<le> 2 ^ 53"
  proof (cases "0 < x")
    case True
    from round_half_even_mant [OF True] show ?thesis by simp
  next
    case False
    with \<open>x \<noteq> 0\<close> have p: "0 < - x" by simp
    from round_half_even_mant [OF p] show ?thesis by (simp add: floor_log2_minus round_half_even_minus)
  qed
  have "v = of_int (round_half_even (x / 2 powi (floor_log2 x - 52))) * 2 powi (floor_log2 x - 52)"
    by (simp add: v round_to_53_def)
  moreover have "\<bar>v\<bar> < 2 powi 1024" using r by (simp add: v)
  ultimately show ?thesis using k by (intro round_binary64_exact)
qed

lemma round_binary64_of_int: "\<bar>k\<bar> \<le> 2 ^ 53 \<Longrightarrow> round_binary64 (of_int k) = Fin (of_int k)"
proof -
  assume k: "\<bar>k\<bar> \<le> 2 ^ 53"
  have "\<bar>rat_of_int k\<bar> \<le> of_int (2 ^ 53)" using k by (simp only: of_int_abs [symmetric] of_int_le_iff)
  also have "\<dots> < 2 powi 1024" by simp
  finally have "\<bar>rat_of_int k\<bar> < 2 powi 1024" .
  then show ?thesis using k by (intro round_binary64_exact [where k = k and j = 0]) simp_all
qed



lemma round_binary64_rep_ge:
  assumes c: "round_binary64 c = Fin c" and pos: "0 < c" and le: "c \<le> x"
  shows "round_binary64 x = PosInf \<or> (\<exists>v. round_binary64 x = Fin v \<and> c \<le> v)"
proof -
  have xpos: "0 < x" using pos le by simp
  have cnz: "c \<noteq> 0" and xnz: "x \<noteq> 0" using pos xpos by simp_all
  note Bc = floor_log2_bounds [OF cnz] and Bx = floor_log2_bounds [OF xnz]
  have "(2::rat) powi (floor_log2 c) < 2 powi (floor_log2 x + 1)"
    using Bc(1) Bx(2) pos xpos le by simp
  then have ee: "floor_log2 c \<le> floor_log2 x" by (simp add: two_powi_less)
  from round_binary64_pos [OF xpos] show ?thesis
  proof
    assume "round_binary64 x = PosInf"
    then show ?thesis by simp
  next
    assume r: "round_binary64 x = Fin (round_to_53 x) \<and> 2 powi (floor_log2 x) \<le> round_to_53 x"
    have "c \<le> round_to_53 x"
    proof (cases "floor_log2 c = floor_log2 x")
      case True
      define q :: rat where "q = 2 powi (floor_log2 x - 52)"
      have q: "0 < q" unfolding q_def by (rule two_powi_pos)
      from c cnz have cr: "c = round_to_53 c"
        by (auto simp: round_binary64_unfold split: if_splits)
      define n where "n = round_half_even (c / q)"
      have cn: "c = of_int n * q" using cr by (simp add: round_to_53_def True q_def n_def)
      then have "c / q = of_int n" using q by simp
      moreover have "c / q \<le> x / q" using le q by (simp add: divide_right_mono)
      ultimately have "of_int n \<le> x / q" by simp
      then have "n \<le> round_half_even (x / q)" by (rule round_half_even_ge)
      then have "rat_of_int n \<le> rat_of_int (round_half_even (x / q))"
        by (simp only: of_int_le_iff)
      then have A: "rat_of_int n * q \<le> rat_of_int (round_half_even (x / q)) * q"
        using q by (simp add: mult_right_mono)
      have rx: "round_to_53 x = rat_of_int (round_half_even (x / q)) * q"
        by (simp add: round_to_53_def q_def)
      from A cn rx show ?thesis by linarith
    next
      case False
      with ee have "floor_log2 c + 1 \<le> floor_log2 x" by simp
      then have "(2::rat) powi (floor_log2 c + 1) \<le> 2 powi (floor_log2 x)"
        by (simp add: two_powi_le)
      with Bc(2) pos r show ?thesis by simp
    qed
    with r show ?thesis by simp
  qed
qed

lemma round_binary64_sign:
  "js_lt (Fin 0) (round_binary64 x) \<longleftrightarrow> 0 < x"
  "js_lt (round_binary64 x) (Fin 0) \<longleftrightarrow> x < 0"
proof -
  have P: "js_lt (Fin 0) (round_binary64 y) \<and> \<not> js_lt (round_binary64 y) (Fin 0)" if "0 < y" for y
  proof -
    from round_binary64_pos [OF that] show ?thesis
    proof
      assume "round_binary64 y = PosInf"
      then show ?thesis by simp
    next
      assume a: "round_binary64 y = Fin (round_to_53 y) \<and> 2 powi (floor_log2 y) \<le> round_to_53 y"
      then have "0 < round_to_53 y" using two_powi_pos [of "floor_log2 y"] by linarith
      with a show ?thesis by simp
    qed
  qed
  have N: "js_lt (round_binary64 y) (Fin 0) \<and> \<not> js_lt (Fin 0) (round_binary64 y)" if "y < 0" for y
  proof -
    from that have "0 < - y" by simp
    from P [OF this] show ?thesis
      by (cases "round_binary64 y") (simp_all add: round_binary64_minus)
  qed
  show "js_lt (Fin 0) (round_binary64 x) \<longleftrightarrow> 0 < x"
    using P [of x] N [of x] by (cases "x = 0"; cases "0 < x") auto
  show "js_lt (round_binary64 x) (Fin 0) \<longleftrightarrow> x < 0"
    using P [of x] N [of x] by (cases "x = 0"; cases "0 < x") auto
qed

lemma round_binary64_nonneg: "0 \<le> x \<Longrightarrow> js_le (Fin 0) (round_binary64 x)"
  using round_binary64_sign(2) [of x] round_binary64_not_NaN [of x] by (simp add: js_le_def)


lemma round_binary64_1 [simp]: "round_binary64 1 = Fin 1"
  using round_binary64_of_int [of 1] by simp

lemma round_binary64_numeral [simp]:
  "(numeral n :: int) \<le> 9007199254740992 \<Longrightarrow> round_binary64 (numeral n) = Fin (numeral n)"
  using round_binary64_of_int [of "numeral n"] by simp

lemma round_binary64_half [simp]: "round_binary64 (1 / 2) = Fin (1 / 2)"
  by (rule round_binary64_exact [where k = 1 and j = "- 1"]) (simp_all add: power_int_def)

declare round_binary64_minus [simp]

lemma round_binary64_halves [simp]:
  "(numeral n :: int) \<le> 9007199254740992 \<Longrightarrow>
     round_binary64 (numeral n / 2) = Fin (numeral n / 2)"
proof -
  assume n: "(numeral n :: int) \<le> 9007199254740992"
  have "0 \<le> (numeral n :: rat)" by simp
  then have "\<bar>numeral n / 2 :: rat\<bar> \<le> numeral n" by linarith
  then have "\<bar>numeral n / 2 :: rat\<bar> \<le> of_int (numeral n)" by simp
  also have "\<dots> \<le> of_int 9007199254740992" using n by (simp only: of_int_le_iff)
  also have "\<dots> < 2 powi 1024" by simp
  finally have r: "\<bar>numeral n / 2 :: rat\<bar> < 2 powi 1024" .
  show ?thesis
    by (rule round_binary64_exact [where k = "numeral n" and j = "- 1"])
       (use n r in \<open>simp_all add: power_int_def\<close>)
qed

section \<open>Order of the numbers\<close>

lemma js_le_refl: "a \<noteq> NaN \<Longrightarrow> js_le a a"
  by (cases a) (simp_all add: js_le_def)

lemma js_le_trans: "js_le a b \<Longrightarrow> js_le b c \<Longrightarrow> js_le a c"
  by (cases a; cases b; cases c) (simp_all add: js_le_def)

lemma js_le_total: "a \<noteq> NaN \<Longrightarrow> b \<noteq> NaN \<Longrightarrow> js_le a b \<or> js_le b a"
  by (cases a; cases b) (auto simp: js_le_def)

lemma js_le_antisym: "js_le a b \<Longrightarrow> js_le b a \<Longrightarrow> a = b"
  by (cases a; cases b) (simp_all add: js_le_def)

lemma js_lt_imp_le: "js_lt a b \<Longrightarrow> js_le a b"
  by (cases a; cases b) (simp_all add: js_le_def)

lemma js_lt_not_le: "js_lt a b \<Longrightarrow> \<not> js_le b a"
  by (simp add: js_le_def)

lemma js_le_not_NaN: "js_le a b \<Longrightarrow> a \<noteq> NaN \<and> b \<noteq> NaN"
  by (simp add: js_le_def)

section \<open>The catalog's invariant\<close>

text \<open>
  C9. Every record of the static catalog \<open>CARS\<close> satisfies the data-model invariant:
  its \<open>priceBands\<close> are strictly ascending and four in number, and its
  \<open>yearsByBand\<close> has the same length as its \<open>priceBands\<close>.
\<close>

theorem catalog_band_invariant: "\<forall>c \<in> set CARS. band_invariant c"
  by (simp add: CARS_def band_invariant_def)

theorem catalog_band_invariant_witness:
  "CARS ! 4 \<in> set CARS \<and> band_invariant (CARS ! 4)"
  using catalog_band_invariant by (simp add: CARS_def)

section \<open>pickYearForBudget\<close>

lemma pickYear_loop_none:
  "\<forall>i<n. \<not> js_le (pb ! i) budget \<Longrightarrow> n \<le> length pb \<Longrightarrow>
     pickYear_loop pb yb budget n = elem_at yb 0"
  by (induction n) (simp_all add: num_at_def js_ge_def)

lemma pickYear_loop_greatest:
  "i < n \<Longrightarrow> n \<le> length pb \<Longrightarrow> js_le (pb ! i) budget \<Longrightarrow>
   \<forall>j. i < j \<and> j < n \<longrightarrow> \<not> js_le (pb ! j) budget \<Longrightarrow>
     pickYear_loop pb yb budget n = elem_at yb i"
proof (induction n)
  case 0
  then show ?case by simp
next
  case (Suc n)
  show ?case
  proof (cases "i = n")
    case True
    with Suc.prems show ?thesis by (simp add: num_at_def js_ge_def)
  next
    case False
    with Suc.prems have "i < n" by simp
    moreover from Suc.prems \<open>i < n\<close> have "\<not> js_le (pb ! n) budget" by simp
    ultimately show ?thesis using Suc by (simp add: num_at_def js_ge_def)
  qed
qed

text \<open>
  C2, as stated for every \<open>priceBands\<close> sequence, fails on the empty one: the loop
  does not run and \<open>yearsByBand[0]\<close> is \<open>undefined\<close>, which is no element of
  \<open>yearsByBand\<close>.
\<close>

theorem pickYearForBudget_empty_counterexample:
  "length ([] :: jsnum list) = length ([] :: jsnum list)
   \<and> pickYearForBudget [] ([] :: jsnum list) (Fin 20000) = None
   \<and> pickYearForBudget [] ([] :: jsnum list) (Fin 20000) \<notin> Some ` set []"
  by (simp add: pickYearForBudget_def elem_at_def)

text \<open>
  C2 (amended). For every non-empty \<open>priceBands\<close> sequence, every \<open>yearsByBand\<close>
  of the same length and every budget: \<open>pickYearForBudget\<close> returns
  \<open>yearsByBand[i]\<close> for the largest index \<open>i\<close> with \<open>priceBands[i] <= budget\<close>;
  it returns \<open>yearsByBand[0]\<close> when no band is \<open><= budget\<close>, in particular when the
  budget is below every band; and the value returned is always an element of
  \<open>yearsByBand\<close> (never \<open>undefined\<close>).
\<close>

theorem pickYearForBudget_correct:
  assumes "length yb = length pb" and "pb \<noteq> []"
  shows "(\<forall>i<length pb. js_le (pb ! i) budget
              \<and> (\<forall>j. i < j \<and> j < length pb \<longrightarrow> \<not> js_le (pb ! j) budget)
            \<longrightarrow> pickYearForBudget pb yb budget = Some (yb ! i))
       \<and> ((\<forall>i<length pb. \<not> js_le (pb ! i) budget)
            \<longrightarrow> pickYearForBudget pb yb budget = Some (yb ! 0))
       \<and> ((\<forall>i<length pb. js_lt budget (pb ! i))
            \<longrightarrow> pickYearForBudget pb yb budget = Some (yb ! 0))
       \<and> (\<exists>y \<in> set yb. pickYearForBudget pb yb budget = Some y)"
proof -
  have len: "0 < length yb" using assms by simp
  have A: "pickYearForBudget pb yb budget = Some (yb ! i)"
    if "i < length pb" "js_le (pb ! i) budget"
       "\<forall>j. i < j \<and> j < length pb \<longrightarrow> \<not> js_le (pb ! j) budget" for i
    using pickYear_loop_greatest [where yb = yb, OF that(1) le_refl that(2) that(3)]
      that(1) assms(1)
    by (simp add: pickYearForBudget_def elem_at_def)
  have B: "pickYearForBudget pb yb budget = Some (yb ! 0)"
    if "\<forall>i<length pb. \<not> js_le (pb ! i) budget"
    using pickYear_loop_none [where yb = yb, OF that le_refl] len
    by (simp add: pickYearForBudget_def elem_at_def)
  have C: "pickYearForBudget pb yb budget = Some (yb ! 0)"
    if "\<forall>i<length pb. js_lt budget (pb ! i)"
    using B that js_lt_not_le by blast
  have D: "\<exists>y \<in> set yb. pickYearForBudget pb yb budget = Some y"
  proof (cases "\<exists>i<length pb. js_le (pb ! i) budget")
    case True
    define P where "P = (\<lambda>i. i < length pb \<and> js_le (pb ! i) budget)"
    from True have ex: "\<exists>i. P i" by (auto simp: P_def)
    have bnd: "\<forall>i. P i \<longrightarrow> i \<le> length pb" by (simp add: P_def)
    define g where "g = (GREATEST i. P i)"
    have Pg: "P g" unfolding g_def using ex bnd by (metis GreatestI_ex_nat)
    have gmax: "\<And>j. P j \<Longrightarrow> j \<le> g" unfolding g_def using bnd by (metis Greatest_le_nat)
    have "\<forall>j. g < j \<and> j < length pb \<longrightarrow> \<not> js_le (pb ! j) budget"
      using gmax by (fastforce simp: P_def)
    with Pg A [of g] have "pickYearForBudget pb yb budget = Some (yb ! g)"
      by (simp add: P_def)
    moreover have "yb ! g \<in> set yb" using Pg assms(1) by (simp add: P_def)
    ultimately show ?thesis by blast
  next
    case False
    then have "pickYearForBudget pb yb budget = Some (yb ! 0)" using B by blast
    moreover have "yb ! 0 \<in> set yb" using len by simp
    ultimately show ?thesis by blast
  qed
  show ?thesis using A B C D by blast
qed

theorem pickYearForBudget_correct_witness:
  "pickYearForBudget [Fin 12000, Fin 18000, Fin 25000, Fin 35000]
      [Fin 2015, Fin 2018, Fin 2021, Fin 2024] (Fin 20000) = Some (Fin 2018)
   \<and> pickYearForBudget [Fin 12000, Fin 18000, Fin 25000, Fin 35000]
      [Fin 2015, Fin 2018, Fin 2021, Fin 2024] (Fin 500) = Some (Fin 2015)"
proof -
  let ?pb = "[Fin 12000, Fin 18000, Fin 25000, Fin 35000]"
  let ?yb = "[Fin 2015, Fin 2018, Fin 2021, Fin 2024]"
  have len: "length ?yb = length ?pb" and ne: "?pb \<noteq> []" by simp_all
  note T = pickYearForBudget_correct [OF len ne]
  have j: "\<forall>j. (Suc 0) < j \<and> j < length ?pb \<longrightarrow> \<not> js_le (?pb ! j) (Fin 20000)"
    by (auto simp: js_le_def less_Suc_eq nth_Cons')
  have 1: "pickYearForBudget ?pb ?yb (Fin 20000) = Some (?yb ! (Suc 0))"
    using T [of "Fin 20000", THEN conjunct1, rule_format, of "Suc 0"] j
    by (simp add: js_le_def)
  have b: "\<forall>i<length ?pb. js_lt (Fin 500) (?pb ! i)"
    by (auto simp: less_Suc_eq nth_Cons')
  have 2: "pickYearForBudget ?pb ?yb (Fin 500) = Some (?yb ! 0)"
    using T [of "Fin 500", THEN conjunct2, THEN conjunct2, THEN conjunct1] b by blast
  show ?thesis using 1 2 by simp
qed

section \<open>affordabilityScore\<close>

lemma Math_min_le: "js_le a b \<Longrightarrow> Math_min a b = a"
  by (cases a; cases b) (simp_all add: Math_min_def js_le_def)

lemma Math_max_le: "js_le a b \<Longrightarrow> Math_max a b = b"
  by (cases a; cases b) (simp_all add: Math_max_def js_le_def)

lemma Math_min_PosInf: "Math_min a PosInf = a"
  by (cases a) (simp_all add: Math_min_def)

lemma Math_max_NegInf: "Math_max a NegInf = a"
  by (cases a) (simp_all add: Math_max_def)

lemma min_band_Cons: "min_band (x # xs) = Math_min x (min_band xs)"
  by (simp add: min_band_def)

lemma max_band_Cons: "max_band (x # xs) = Math_max x (max_band xs)"
  by (simp add: max_band_def)

lemma min_band_sorted: "pb \<noteq> [] \<Longrightarrow> sorted_wrt js_le pb \<Longrightarrow> min_band pb = hd pb"
proof (induction pb)
  case Nil
  then show ?case by simp
next
  case (Cons x xs)
  show ?case
  proof (cases xs)
    case Nil
    then show ?thesis by (simp add: min_band_def Math_min_PosInf)
  next
    case (Cons y ys)
    with Cons.prems Cons.IH have "min_band xs = y" "js_le x y" by simp_all
    then show ?thesis by (simp add: min_band_Cons Math_min_le)
  qed
qed

lemma max_band_sorted: "pb \<noteq> [] \<Longrightarrow> sorted_wrt js_le pb \<Longrightarrow> max_band pb = last pb"
proof (induction pb)
  case Nil
  then show ?case by simp
next
  case (Cons x xs)
  show ?case
  proof (cases xs)
    case Nil
    then show ?thesis by (simp add: max_band_def Math_max_NegInf)
  next
    case (Cons y ys)
    with Cons.prems Cons.IH have m: "max_band xs = last xs" and le: "js_le x (last xs)"
      by simp_all
    with Cons show ?thesis by (simp add: max_band_Cons Math_max_le)
  qed
qed

lemma num_at_hd: "pb \<noteq> [] \<Longrightarrow> num_at pb 0 = hd pb"
  by (cases pb) (simp_all add: num_at_def)

lemma num_at_last: "pb \<noteq> [] \<Longrightarrow> num_at pb (int (length pb) - 1) = last pb"
  by (cases pb) (simp_all add: num_at_def last_conv_nth)

lemma aff_core:
  assumes "lo = hi \<or> js_le lo hi"
  shows "((if js_ge b lo \<and> js_le b hi then Fin 0
          else if js_lt b lo then js_sub lo b else js_sub b hi) = Fin 0)
         = (js_le lo b \<and> js_le b hi)"
  using assms
  by (cases lo; cases hi; cases b) (auto simp: js_le_def js_ge_def js_sub_def)

text \<open>
  C3. For every non-empty ascending \<open>priceBands\<close> sequence and every budget:
  \<open>affordabilityScore\<close> is \<open>0\<close> if and only if the budget lies between the least and
  the greatest band, both included; below the least band it is the least band minus the
  budget, above the greatest band it is the budget minus the greatest band.
\<close>

theorem affordabilityScore_correct:
  assumes "pb \<noteq> []" and "sorted_wrt js_le pb"
  shows "(affordabilityScore pb budget = Fin 0
            \<longleftrightarrow> js_le (min_band pb) budget \<and> js_le budget (max_band pb))
       \<and> (js_lt budget (min_band pb)
            \<longrightarrow> affordabilityScore pb budget = js_sub (min_band pb) budget)
       \<and> (js_lt (max_band pb) budget
            \<longrightarrow> affordabilityScore pb budget = js_sub budget (max_band pb))"
proof -
  have lo: "num_at pb 0 = min_band pb"
    using assms by (simp add: num_at_hd min_band_sorted)
  have hi: "num_at pb (int (length pb) - 1) = max_band pb"
    using assms by (simp add: num_at_last max_band_sorted)
  have rel: "min_band pb = max_band pb \<or> js_le (min_band pb) (max_band pb)"
  proof (cases pb)
    case Nil
    with assms show ?thesis by simp
  next
    case (Cons x xs)
    then show ?thesis
      using assms min_band_sorted [OF assms] max_band_sorted [OF assms]
      by (cases xs) auto
  qed
  have eq: "affordabilityScore pb budget =
      (if js_ge budget (min_band pb) \<and> js_le budget (max_band pb) then Fin 0
       else if js_lt budget (min_band pb) then js_sub (min_band pb) budget
       else js_sub budget (max_band pb))"
    by (simp add: affordabilityScore_def lo hi Let_def)
  have 1: "affordabilityScore pb budget = Fin 0
            \<longleftrightarrow> js_le (min_band pb) budget \<and> js_le budget (max_band pb)"
    unfolding eq using aff_core [OF rel] by simp
  have 2: "affordabilityScore pb budget = js_sub (min_band pb) budget"
    if "js_lt budget (min_band pb)"
    using that js_lt_not_le [OF that] by (simp add: eq js_ge_def)
  have 3: "affordabilityScore pb budget = js_sub budget (max_band pb)"
    if "js_lt (max_band pb) budget"
  proof -
    have "\<not> js_le budget (max_band pb)" using that by (rule js_lt_not_le)
    moreover have "\<not> js_lt budget (min_band pb)"
    proof
      assume a: "js_lt budget (min_band pb)"
      from rel show False
      proof
        assume "min_band pb = max_band pb"
        with a that show False
          by (cases budget; cases "max_band pb") simp_all
      next
        assume "js_le (min_band pb) (max_band pb)"
        with a that show False
          by (cases budget; cases "max_band pb"; cases "min_band pb") (simp_all add: js_le_def)
      qed
    qed
    ultimately show ?thesis by (simp add: eq)
  qed
  show ?thesis using 1 2 3 by blast
qed

theorem affordabilityScore_correct_witness:
  "affordabilityScore [Fin 12000, Fin 18000, Fin 25000, Fin 35000] (Fin 20000) = Fin 0
   \<and> affordabilityScore [Fin 12000, Fin 18000, Fin 25000, Fin 35000] (Fin 10000) = Fin 2000
   \<and> affordabilityScore [Fin 12000, Fin 18000, Fin 25000, Fin 35000] (Fin 40000) = Fin 5000"
proof -
  let ?pb = "[Fin 12000, Fin 18000, Fin 25000, Fin 35000]"
  have ne: "?pb \<noteq> []" and asc: "sorted_wrt js_le ?pb" by (simp_all add: js_le_def)
  have lo: "min_band ?pb = Fin 12000" and hi: "max_band ?pb = Fin 35000"
    by (simp_all add: min_band_def max_band_def Math_min_def Math_max_def)
  note T = affordabilityScore_correct [OF ne asc]
  have 1: "affordabilityScore ?pb (Fin 20000) = Fin 0"
    using T [of "Fin 20000", THEN conjunct1] by (simp add: lo hi js_le_def)
  have 2: "affordabilityScore ?pb (Fin 10000) = Fin 2000"
    using T [of "Fin 10000", THEN conjunct2, THEN conjunct1] by (simp add: lo hi js_sub_def)
  have 3: "affordabilityScore ?pb (Fin 40000) = Fin 5000"
    using T [of "Fin 40000", THEN conjunct2, THEN conjunct2] by (simp add: lo hi js_sub_def)
  show ?thesis using 1 2 3 by simp
qed

section \<open>The seat filter\<close>

lemma CARS_minSeats:
  "c \<in> set CARS \<Longrightarrow> minSeats c \<in> {Fin 2, Fin 4, Fin 5, Fin 7}"
  by (auto simp: CARS_def)

lemma CARS_shape:
  "c \<in> set CARS \<Longrightarrow> \<exists>p0 p1 p2 p3. priceBands c = [Fin p0, Fin p1, Fin p2, Fin p3]"
  by (auto simp: CARS_def)

lemma round_binary64_le_neg_pow:
  assumes "x \<le> - (2 powi j)"
  shows "round_binary64 x = NegInf \<or> (\<exists>v. round_binary64 x = Fin v \<and> v \<le> - (2 powi j))"
proof -
  from assms have "2 powi j \<le> - x" by simp
  from round_binary64_ge_pow [OF this] show ?thesis
    by (cases "round_binary64 x") (auto simp: round_binary64_minus)
qed

lemma pred_less_int:
  assumes k: "\<bar>k\<bar> < (2 ^ 53 :: int)"
  shows "js_lt (round_binary64 (of_int n - 1)) (Fin (of_int k)) \<longleftrightarrow> n \<le> k"
proof -
  consider "\<bar>n - 1\<bar> \<le> 2 ^ 53" | "2 ^ 53 < n - 1" | "n - 1 < - (2 ^ 53)" by linarith
  then show ?thesis
  proof cases
    case 1
    have "round_binary64 (of_int n - 1) = round_binary64 (of_int (n - 1))" by simp
    also have "\<dots> = Fin (of_int (n - 1))" using 1 by (rule round_binary64_of_int)
    finally have "js_lt (round_binary64 (of_int n - 1)) (Fin (of_int k))
        \<longleftrightarrow> (of_int (n - 1) :: rat) < of_int k" by simp
    also have "\<dots> \<longleftrightarrow> n - 1 < k" by (simp only: of_int_less_iff)
    also have "\<dots> \<longleftrightarrow> n \<le> k" by arith
    finally show ?thesis .
  next
    case 2
    then have "(of_int (2 ^ 53) :: rat) \<le> of_int (n - 1)" by (simp only: of_int_le_iff)
    then have "(2::rat) powi 53 \<le> of_int n - 1" by simp
    from round_binary64_ge_pow [OF this]
    have "\<not> js_lt (round_binary64 (of_int n - 1)) (Fin (of_int k))"
    proof
      assume "round_binary64 (of_int n - 1) = PosInf"
      then show ?thesis by simp
    next
      assume "\<exists>v. round_binary64 (of_int n - 1) = Fin v \<and> 2 powi 53 \<le> v"
      then obtain v where v: "round_binary64 (of_int n - 1) = Fin v" "2 powi 53 \<le> v" by blast
      have "(of_int k :: rat) \<le> of_int (2 ^ 53)" using k by (simp only: of_int_le_iff)
      with v(2) have "of_int k \<le> v" by simp
      then show ?thesis by (simp add: v(1))
    qed
    moreover have "\<not> n \<le> k" using 2 k by linarith
    ultimately show ?thesis by simp
  next
    case 3
    then have "(of_int (n - 1) :: rat) \<le> of_int (- (2 ^ 53))" by (simp only: of_int_le_iff)
    then have "of_int n - 1 \<le> - ((2::rat) powi 53)" by simp
    from round_binary64_le_neg_pow [OF this]
    have "js_lt (round_binary64 (of_int n - 1)) (Fin (of_int k))"
    proof
      assume "round_binary64 (of_int n - 1) = NegInf"
      then show ?thesis by simp
    next
      assume "\<exists>v. round_binary64 (of_int n - 1) = Fin v \<and> v \<le> - (2 powi 53)"
      then obtain v where v: "round_binary64 (of_int n - 1) = Fin v" "v \<le> - (2 powi 53)" by blast
      have "- (2 ^ 53) < k" using k by simp
      then have "(of_int (- (2 ^ 53)) :: rat) < of_int k" by (simp only: of_int_less_iff)
      then have "- (2 powi 53) < (of_int k :: rat)" by simp
      with v(2) have "v < of_int k" by linarith
      then show ?thesis by (simp add: v(1))
    qed
    moreover have "n \<le> k" using 3 k by linarith
    ultimately show ?thesis by simp
  qed
qed

lemma seat_filter_int:
  assumes "c \<in> set CARS" and "js_isInteger s"
  shows "seat_filter s c = js_ge (minSeats c) s"
proof -
  from CARS_minSeats [OF assms(1)] obtain k :: int
    where m: "minSeats c = Fin (of_int k)" and k: "\<bar>k\<bar> < 2 ^ 53"
    by (auto intro: that [of 2] that [of 4] that [of 5] that [of 7])
  from assms(2) obtain x where s: "s = Fin x" and "x = of_int \<lfloor>x\<rfloor>"
    by (cases s) (simp_all add: js_isInteger_def)
  then obtain n :: int where x: "x = of_int n" by blast
  have "js_gt (minSeats c) (js_sub s (Fin 1)) \<longleftrightarrow> n \<le> k"
    using pred_less_int [OF k, of n] by (simp add: m s x js_gt_def js_sub_def)
  moreover have "js_ge (minSeats c) s \<longleftrightarrow> n \<le> k"
    by (simp add: m s x js_ge_def js_le_def not_less)
  moreover have "js_seq (minSeats c) s \<longrightarrow> n \<le> k"
    by (simp add: m s x js_seq_def)
  ultimately show ?thesis by (auto simp: seat_filter_def)
qed

lemma seat_filter_int_or_inf:
  assumes "c \<in> set CARS" and "js_isInteger s \<or> s = PosInf \<or> s = NegInf"
  shows "seat_filter s c = js_ge (minSeats c) s"
proof -
  from CARS_minSeats [OF assms(1)] obtain m where m: "minSeats c = Fin m" by auto
  have inf: "seat_filter s c = js_ge (minSeats c) s" if "s = PosInf \<or> s = NegInf"
    using that
    by (auto simp: seat_filter_def m js_ge_def js_le_def js_seq_def js_gt_def js_sub_def)
  show ?thesis
    using seat_filter_int [OF assms(1)] inf assms(2) by blast
qed

text \<open>
  C1 (amended). For every catalog record and every integer-valued seats value the
  coercion produces (also for an infinite one), the record passes the three-condition
  seat filter of the primary pass if and only if its \<open>minSeats\<close> is \<open>>= seats\<close>.
\<close>

theorem seat_filter_integer:
  assumes "c \<in> set CARS" and "js_isInteger s \<or> s = PosInf \<or> s = NegInf"
  shows "seat_filter s c = js_ge (minSeats c) s"
  using assms by (rule seat_filter_int_or_inf)

theorem seat_filter_integer_witness:
  "CARS ! 12 \<in> set CARS \<and> js_isInteger (Fin 4) \<and> js_isInteger (Fin 5)
   \<and> wantSeats_of plain_builtins (Some (JObj [(''seats'', JNum (Fin 5))])) = Inr (Fin 5)
   \<and> seat_filter (Fin 4) (CARS ! 12) \<and> js_ge (minSeats (CARS ! 12)) (Fin 4)
   \<and> \<not> seat_filter (Fin 5) (CARS ! 12) \<and> \<not> js_ge (minSeats (CARS ! 12)) (Fin 5)"
proof -
  have c: "CARS ! 12 \<in> set CARS" by (simp add: CARS_def)
  have i: "js_isInteger (Fin 4)" "js_isInteger (Fin 5)" by (simp_all add: js_isInteger_def)
  have w: "wantSeats_of plain_builtins (Some (JObj [(''seats'', JNum (Fin 5))])) = Inr (Fin 5)"
    by (simp add: wantSeats_of_def js_truthy_num_def)
  have g: "js_ge (minSeats (CARS ! 12)) (Fin 4)" "\<not> js_ge (minSeats (CARS ! 12)) (Fin 5)"
    by (simp_all add: CARS_def js_ge_def js_le_def)
  have "seat_filter (Fin 4) (CARS ! 12) = js_ge (minSeats (CARS ! 12)) (Fin 4)"
    using seat_filter_integer [OF c, of "Fin 4"] i by blast
  moreover have "seat_filter (Fin 5) (CARS ! 12) = js_ge (minSeats (CARS ! 12)) (Fin 5)"
    using seat_filter_integer [OF c, of "Fin 5"] i by blast
  ultimately show ?thesis using c i w g by simp
qed

text \<open>
  C1, as stated for every seats value the coercion produces, fails on a fraction: the
  body \<open>{"seats": 4.5}\<close> is coerced to \<open>4.5\<close>, and the Porsche 911 with its
  \<open>minSeats\<close> of 4 passes the third condition (\<open>4 > 3.5\<close>) although \<open>4 >= 4.5\<close>
  is false. With budget 30000 and type \<open>sport\<close> the two four-seaters are among the
  results, with a seat term of 2500 in their scores.
\<close>

theorem seat_filter_fraction_counterexample:
  "wantSeats_of plain_builtins (Some (JObj [(''seats'', JNum (Fin (9 / 2)))])) = Inr (Fin (9 / 2))
   \<and> CARS ! 12 \<in> set CARS
   \<and> minSeats (CARS ! 12) = Fin 4
   \<and> seat_filter (Fin (9 / 2)) (CARS ! 12)
   \<and> \<not> js_ge (minSeats (CARS ! 12)) (Fin (9 / 2))
   \<and> map (\<lambda>r. (r_model r, seats r, score r))
         (results (search_coerced (Fin (9 / 2)) (Fin 30000) ''sport''))
       = [(''BMW M3'', Fin 5, Fin 0), (''Ford Mustang'', Fin 4, Fin 2500),
          (''Porsche 911'', Fin 4, Fin 17500)]"
  by (simp add: wantSeats_of_def js_truthy_num_def search_coerced_def CARS_def seat_filter_def
      type_filter_def js_ge_def js_le_def js_seq_def js_gt_def js_sub_def match_of_def
      base_score_def affordabilityScore_def pickYearForBudget_def num_at_def elem_at_def
      Math_max_def js_sort_def by_score_def)

section \<open>Sorting by score\<close>

lemma sub_gt_zero: "a \<noteq> NaN \<Longrightarrow> b \<noteq> NaN \<Longrightarrow> js_gt (js_sub a b) (Fin 0) = js_lt b a"
  by (cases a; cases b) (simp_all add: js_gt_def js_sub_def round_binary64_sign)

lemma by_score_gt:
  "score a \<noteq> NaN \<Longrightarrow> score b \<noteq> NaN \<Longrightarrow>
     js_gt (by_score a b) (Fin 0) = js_lt (score b) (score a)"
  by (simp add: by_score_def sub_gt_zero)

lemma set_insort_cmp: "set (insort_cmp cmp x xs) = insert x (set xs)"
  by (induction xs) auto

lemma length_insort_cmp: "length (insort_cmp cmp x xs) = Suc (length xs)"
  by (induction xs) auto

lemma mset_insort_cmp: "mset (insort_cmp cmp x xs) = add_mset x (mset xs)"
  by (induction xs) auto

lemma mset_js_sort: "mset (js_sort cmp xs) = mset xs"
  by (induction xs) (simp_all add: js_sort_def mset_insort_cmp)

lemma set_js_sort: "set (js_sort cmp xs) = set xs"
  by (induction xs) (simp_all add: js_sort_def set_insort_cmp)

lemma length_js_sort: "length (js_sort cmp xs) = length xs"
  by (induction xs) (simp_all add: js_sort_def length_insort_cmp)

lemma sorted_insort_by_score:
  assumes "score x \<noteq> NaN" and "\<forall>y \<in> set xs. score y \<noteq> NaN" and "sorted_wrt score_le xs"
  shows "sorted_wrt score_le (insort_cmp by_score x xs)"
  using assms
proof (induction xs)
  case Nil
  then show ?case by simp
next
  case (Cons y ys)
  have yn: "score y \<noteq> NaN" using Cons.prems by simp
  show ?case
  proof (cases "js_lt (score y) (score x)")
    case True
    then have yx: "score_le y x" by (simp add: score_le_def js_lt_imp_le)
    have "sorted_wrt score_le (insort_cmp by_score x ys)" using Cons by simp
    moreover have "\<forall>z \<in> set (insort_cmp by_score x ys). score_le y z"
      using Cons.prems yx by (simp add: set_insort_cmp)
    ultimately show ?thesis
      using True Cons.prems(1) yn by (simp add: by_score_gt)
  next
    case False
    then have xy: "score_le x y"
      using Cons.prems(1) yn by (simp add: score_le_def js_le_def)
    have "\<forall>z \<in> set ys. score_le x z"
      using Cons.prems(3) xy js_le_trans by (fastforce simp: score_le_def)
    then show ?thesis
      using False Cons.prems yn xy by (simp add: by_score_gt)
  qed
qed

lemma sorted_js_sort:
  "\<forall>y \<in> set xs. score y \<noteq> NaN \<Longrightarrow> sorted_wrt score_le (js_sort by_score xs)"
proof (induction xs)
  case Nil
  then show ?case by (simp add: js_sort_def)
next
  case (Cons x xs)
  then have "sorted_wrt score_le (js_sort by_score xs)" by simp
  moreover have "\<forall>y \<in> set (js_sort by_score xs). score y \<noteq> NaN"
    using Cons.prems by (simp add: set_js_sort)
  ultimately have "sorted_wrt score_le (insort_cmp by_score x (js_sort by_score xs))"
    using Cons.prems by (intro sorted_insort_by_score) simp_all
  then show ?case by (simp add: js_sort_def)
qed

lemma sorted_wrt_take: "sorted_wrt R xs \<Longrightarrow> sorted_wrt R (take n xs)"
  by (metis append_take_drop_id sorted_wrt_append)

section \<open>Scores and order of the results\<close>



lemma js_add_nonneg:
  "js_le (Fin 0) a \<Longrightarrow> js_le (Fin 0) b \<Longrightarrow> js_le (Fin 0) (js_add a b)"
proof (cases a; cases b)
  fix x y
  assume "js_le (Fin 0) a" "js_le (Fin 0) b" "a = Fin x" "b = Fin y"
  then have "0 \<le> x + y" by (simp add: js_le_def)
  then show ?thesis using \<open>a = Fin x\<close> \<open>b = Fin y\<close> by (simp add: round_binary64_nonneg)
qed (simp_all add: js_le_def)

lemma js_sub_nonneg: "y \<le> x \<Longrightarrow> js_le (Fin 0) (js_sub (Fin x) (Fin y))"
  by (simp add: js_sub_def round_binary64_nonneg)

lemma aff_four:
  assumes "b \<noteq> NaN"
  shows "js_le (Fin 0) (affordabilityScore [Fin p0, Fin p1, Fin p2, Fin p3] b)"
proof (cases b)
  case (Fin x)
  show ?thesis
    using js_sub_nonneg [of x p0] js_sub_nonneg [of p3 x]
    by (auto simp: Fin affordabilityScore_def Let_def num_at_def js_ge_def js_le_def)
qed (use assms in \<open>simp_all add: affordabilityScore_def Let_def num_at_def js_ge_def js_le_def js_sub_def\<close>)

lemma penalty_range:
  assumes "s \<noteq> NaN"
  shows "js_le (Fin 0) (js_mul (Math_max (Fin 0) (js_sub s (Fin m))) (Fin 5000))"
proof -
  define d where "d = js_sub s (Fin m)"
  have dn: "d \<noteq> NaN"
    using assms by (cases s) (simp_all add: d_def js_sub_def round_binary64_not_NaN)
  have "js_le (Fin 0) (Math_max (Fin 0) d)"
    using dn by (cases d) (simp_all add: Math_max_def js_le_def)
  then show ?thesis
    unfolding d_def [symmetric]
    by (cases "Math_max (Fin 0) d") (simp_all add: js_le_def round_binary64_nonneg [unfolded js_le_def])
qed

lemma base_score_nonneg:
  assumes "c \<in> set CARS" and "s \<noteq> NaN" and "b \<noteq> NaN"
  shows "js_le (Fin 0) (base_score s b c)"
proof -
  from CARS_minSeats [OF assms(1)] obtain m where m: "minSeats c = Fin m" by auto
  from CARS_shape [OF assms(1)] obtain p0 p1 p2 p3
    where p: "priceBands c = [Fin p0, Fin p1, Fin p2, Fin p3]" by blast
  show ?thesis
    unfolding base_score_def m p
    by (rule js_add_nonneg [OF aff_four [OF assms(3)] penalty_range [OF assms(2)]])
qed

lemma match_of_score_not_NaN:
  "c \<in> set CARS \<Longrightarrow> s \<noteq> NaN \<Longrightarrow> b \<noteq> NaN \<Longrightarrow> score (match_of s b c) \<noteq> NaN"
  using base_score_nonneg [of c s b] by (simp add: match_of_def js_le_def)

lemma relaxed_of_score_not_NaN:
  "c \<in> set CARS \<Longrightarrow> s \<noteq> NaN \<Longrightarrow> b \<noteq> NaN \<Longrightarrow> score (relaxed_of s b c) \<noteq> NaN"
  using js_add_nonneg [OF base_score_nonneg [of c s b], of "Fin 10000"]
  by (simp add: relaxed_of_def js_le_def)

lemma sorted_take_sort:
  "\<forall>y \<in> set xs. score y \<noteq> NaN \<Longrightarrow> sorted_wrt score_le (take n (js_sort by_score xs))"
  by (simp add: sorted_js_sort sorted_wrt_take)

lemma search_coerced_sorted:
  assumes "s \<noteq> NaN" and "b \<noteq> NaN"
  shows "sorted_wrt score_le (results (search_coerced s b t))
         \<and> length (results (search_coerced s b t)) \<le> 5"
proof -
  have 1: "\<forall>y \<in> set (map (match_of s b) (filter (type_filter t) (filter (seat_filter s) CARS))).
             score y \<noteq> NaN"
    using assms by (auto simp: match_of_score_not_NaN)
  have 2: "\<forall>y \<in> set (map (relaxed_of s b) (filter (\<lambda>c. js_ge (minSeats c) s) CARS)).
             score y \<noteq> NaN"
    using assms by (auto simp: relaxed_of_score_not_NaN)
  show ?thesis
    using sorted_take_sort [OF 1, of 5] sorted_take_sort [OF 2, of 5]
    by (simp add: search_coerced_def Let_def)
qed

lemma wantSeats_of_not_NaN: "wantSeats_of B body = Inr s \<Longrightarrow> s \<noteq> NaN \<and> s \<noteq> Fin 0"
  by (auto simp: wantSeats_of_def js_truthy_num_def split: sum.splits if_splits)

lemma wantBudget_of_not_NaN: "wantBudget_of B body = Inr b \<Longrightarrow> b \<noteq> NaN \<and> b \<noteq> Fin 0"
  by (auto simp: wantBudget_of_def js_truthy_num_def split: sum.splits if_splits)

lemma search_Inr:
  "search B body = Inr resp \<Longrightarrow>
     \<exists>s b t. wantSeats_of B body = Inr s \<and> wantBudget_of B body = Inr b
        \<and> wantType_of B body = Inr t \<and> resp = search_coerced s b t"
  by (auto simp: search_def split: sum.splits)

text \<open>
  C4. For every request the handler answers, the results list, whether it comes from the
  primary or from the relaxed pass, is sorted in non-decreasing order of score and has at
  most five elements.
\<close>

theorem search_sorted_top5:
  assumes "search B body = Inr resp"
  shows "sorted_wrt score_le (results resp) \<and> length (results resp) \<le> 5"
proof -
  from search_Inr [OF assms] obtain s b t
    where "wantSeats_of B body = Inr s" "wantBudget_of B body = Inr b"
      and "resp = search_coerced s b t" by blast
  then show ?thesis
    using search_coerced_sorted [of s b t] wantSeats_of_not_NaN wantBudget_of_not_NaN
    by blast
qed

section \<open>The handler on the example requests\<close>

lemma luxury_coerced:
  "wantSeats_of B luxury_request = Inr (Fin 5)"
  "wantBudget_of B luxury_request = Inr (Fin 30000)"
  "wantType_of B luxury_request = Inr ''luxury''"
proof -
  have "toLowerCase ''luxury'' = ''luxury''" by code_simp
  then show "wantType_of B luxury_request = Inr ''luxury''"
    by (simp add: wantType_of_def luxury_request_def js_String_def)
qed (simp_all add: wantSeats_of_def wantBudget_of_def luxury_request_def js_truthy_num_def)

lemma search_luxury: "search B luxury_request = Inr (search_coerced (Fin 5) (Fin 30000) ''luxury'')"
  by (simp add: search_def luxury_coerced)

lemma hovercar_coerced:
  "wantSeats_of B hovercar_request = Inr (Fin 5)"
  "wantBudget_of B hovercar_request = Inr (Fin 30000)"
  "wantType_of B hovercar_request = Inr ''hovercar''"
proof -
  have "toLowerCase ''hovercar'' = ''hovercar''" by code_simp
  then show "wantType_of B hovercar_request = Inr ''hovercar''"
    by (simp add: wantType_of_def hovercar_request_def js_String_def)
qed (simp_all add: wantSeats_of_def wantBudget_of_def hovercar_request_def js_truthy_num_def)

lemma search_hovercar:
  "search B hovercar_request = Inr (search_coerced (Fin 5) (Fin 30000) ''hovercar'')"
  by (simp add: search_def hovercar_coerced)

lemma fraction_coerced:
  "wantSeats_of B fraction_request = Inr (Fin (9 / 2))"
  "wantBudget_of B fraction_request = Inr (Fin 200000)"
  "wantType_of B fraction_request = Inr ''hovercar''"
proof -
  have "toLowerCase ''hovercar'' = ''hovercar''" by code_simp
  then show "wantType_of B fraction_request = Inr ''hovercar''"
    by (simp add: wantType_of_def fraction_request_def js_String_def)
qed (simp_all add: wantSeats_of_def wantBudget_of_def fraction_request_def js_truthy_num_def)

lemma search_fraction:
  "search B fraction_request = Inr (search_coerced (Fin (9 / 2)) (Fin 200000) ''hovercar'')"
  by (simp add: search_def fraction_coerced)

lemma huge_budget_coerced:
  "wantSeats_of B huge_budget_request = Inr (Fin 7)"
  "wantBudget_of B huge_budget_request = Inr (Fin 10000000000000000000000)"
  "wantType_of B huge_budget_request = Inr ''hovercar''"
proof -
  have "toLowerCase ''hovercar'' = ''hovercar''" by code_simp
  then show "wantType_of B huge_budget_request = Inr ''hovercar''"
    by (simp add: wantType_of_def huge_budget_request_def js_String_def)
qed (simp_all add: wantSeats_of_def wantBudget_of_def huge_budget_request_def js_truthy_num_def)

lemma search_huge_budget:
  "search B huge_budget_request =
     Inr (search_coerced (Fin 7) (Fin 10000000000000000000000) ''hovercar'')"
  by (simp add: search_def huge_budget_coerced)

lemmas eval_defs = search_coerced_def CARS_def seat_filter_def type_filter_def js_ge_def js_le_def
  js_seq_def js_gt_def js_sub_def match_of_def relaxed_of_def base_score_def affordabilityScore_def
  pickYearForBudget_def num_at_def elem_at_def Math_max_def js_sort_def by_score_def penalised_def

theorem search_sorted_top5_witness:
  "search plain_builtins luxury_request = Inr (search_coerced (Fin 5) (Fin 30000) ''luxury'')
   \<and> sorted_wrt score_le (results (search_coerced (Fin 5) (Fin 30000) ''luxury''))
   \<and> length (results (search_coerced (Fin 5) (Fin 30000) ''luxury'')) \<le> 5
   \<and> search plain_builtins hovercar_request = Inr (search_coerced (Fin 5) (Fin 30000) ''hovercar'')
   \<and> relaxed (search_coerced (Fin 5) (Fin 30000) ''hovercar'')
   \<and> sorted_wrt score_le (results (search_coerced (Fin 5) (Fin 30000) ''hovercar''))
   \<and> length (results (search_coerced (Fin 5) (Fin 30000) ''hovercar'')) \<le> 5"
proof -
  have r: "relaxed (search_coerced (Fin 5) (Fin 30000) ''hovercar'')"
    by (simp add: eval_defs)
  show ?thesis
    using search_sorted_top5 [OF search_luxury [of plain_builtins]]
      search_sorted_top5 [OF search_hovercar [of plain_builtins]] r
    by (simp add: search_luxury search_hovercar)
qed

section \<open>The fallback pass\<close>

lemma js_sort_Nil: "js_sort cmp xs = [] \<longleftrightarrow> xs = []"
  using length_js_sort [of cmp xs] by (metis length_0_conv)

lemma relaxed_of_penalised: "relaxed_of s b c = penalised s b c"
  by (simp add: relaxed_of_def penalised_def match_of_def)

lemma primary_Nil:
  "take 5 (js_sort by_score (map (match_of s b) (filter (type_filter t) (filter (seat_filter s) CARS)))) = []
   \<longleftrightarrow> (\<forall>c \<in> set CARS. \<not> (seat_filter s c \<and> type_filter t c))"
  by (simp add: take_eq_Nil js_sort_Nil filter_empty_conv)

lemma search_coerced_relaxed:
  assumes "\<forall>c \<in> set CARS. \<not> (seat_filter s c \<and> type_filter t c)"
  shows "search_coerced s b t =
     \<lparr>results = take 5 (js_sort by_score (map (relaxed_of s b)
                   (filter (\<lambda>c. js_ge (minSeats c) s) CARS))),
      relaxed = True\<rparr>"
  using assms primary_Nil [of s b t] by (simp add: search_coerced_def Let_def)

lemma search_coerced_primary:
  assumes "\<exists>c \<in> set CARS. seat_filter s c \<and> type_filter t c"
  shows "search_coerced s b t =
     \<lparr>results = take 5 (js_sort by_score (map (match_of s b)
                   (filter (type_filter t) (filter (seat_filter s) CARS)))),
      relaxed = False\<rparr>"
  using assms primary_Nil [of s b t] by (simp add: search_coerced_def Let_def)

lemma search_resp:
  assumes "search B body = Inr resp" and "wantSeats_of B body = Inr s"
    and "wantBudget_of B body = Inr b" and "wantType_of B body = Inr t"
  shows "resp = search_coerced s b t"
  using assms by (simp add: search_def)

lemma fallback_filter:
  assumes "js_isInteger s \<or> s = PosInf \<or> s = NegInf"
  shows "filter (\<lambda>c. js_ge (minSeats c) s) CARS = filter (seat_filter s) CARS"
  using seat_filter_int_or_inf [OF _ assms] by (intro filter_cong) simp_all

text \<open>
  C5, as stated for every input, fails on a fractional seat count: for the body
  \<open>{"seats": 4.5, "budget": 200000, "type": "hovercar"}\<close> the primary pass is empty
  and the answer is relaxed, but the fallback keeps the records with
  \<open>minSeats >= 4.5\<close> and not those the seat filter of the primary pass keeps: with
  that filter the Porsche 911 would come first.
\<close>

theorem search_fallback_fraction_counterexample:
  "search plain_builtins fraction_request
     = Inr (search_coerced (Fin (9 / 2)) (Fin 200000) ''hovercar'')
   \<and> relaxed (search_coerced (Fin (9 / 2)) (Fin 200000) ''hovercar'')
   \<and> map r_model (results (search_coerced (Fin (9 / 2)) (Fin 200000) ''hovercar''))
       = [''Mercedes-Benz S-Class'', ''Cadillac Escalade'', ''BMW 7 Series'',
          ''Tesla Model S'', ''BMW M3'']
   \<and> map r_model (take 5 (js_sort by_score
         (map (penalised (Fin (9 / 2)) (Fin 200000)) (filter (seat_filter (Fin (9 / 2))) CARS))))
       = [''Porsche 911'', ''Mercedes-Benz S-Class'', ''Cadillac Escalade'', ''BMW 7 Series'',
          ''Tesla Model S'']"
  by (simp add: search_fraction eval_defs)

text \<open>
  C5 (amended). For every input, the answer has \<open>relaxed = true\<close> exactly when the
  primary pass yields zero results, and \<open>relaxed = false\<close> otherwise. When the primary
  pass yields zero results and the seats value is integer-valued (or infinite), the
  results are those of the pass redone with the seat filter alone (type filter dropped):
  every score gets the fixed 10000 penalty, the list is sorted by score and its first five
  are returned; if no record passes the seat filter either, the results are empty.
\<close>

theorem search_fallback:
  assumes "search B body = Inr resp" and "wantSeats_of B body = Inr s"
    and "wantBudget_of B body = Inr b" and "wantType_of B body = Inr t"
  shows "(relaxed resp \<longleftrightarrow> (\<forall>c \<in> set CARS. \<not> (seat_filter s c \<and> type_filter t c)))
       \<and> ((js_isInteger s \<or> s = PosInf \<or> s = NegInf)
            \<and> (\<forall>c \<in> set CARS. \<not> (seat_filter s c \<and> type_filter t c)) \<longrightarrow>
            (\<exists>ys. mset ys = mset (map (penalised s b) (filter (seat_filter s) CARS))
                  \<and> sorted_wrt score_le ys
                  \<and> results resp = take 5 ys)
            \<and> ((\<forall>c \<in> set CARS. \<not> seat_filter s c) \<longrightarrow> results resp = []))"
proof -
  note r = search_resp [OF assms]
  have sn: "s \<noteq> NaN" and bn: "b \<noteq> NaN"
    using wantSeats_of_not_NaN [OF assms(2)] wantBudget_of_not_NaN [OF assms(3)] by simp_all
  have 1: "relaxed resp \<longleftrightarrow> (\<forall>c \<in> set CARS. \<not> (seat_filter s c \<and> type_filter t c))"
  proof (cases "\<forall>c \<in> set CARS. \<not> (seat_filter s c \<and> type_filter t c)")
    case True
    with search_coerced_relaxed [OF True, of b] r show ?thesis by simp
  next
    case False
    then have "\<exists>c \<in> set CARS. seat_filter s c \<and> type_filter t c" by blast
    from search_coerced_primary [OF this, of b] r False show ?thesis by simp
  qed
  have 2: "(\<exists>ys. mset ys = mset (map (penalised s b) (filter (seat_filter s) CARS))
                  \<and> sorted_wrt score_le ys
                  \<and> results resp = take 5 ys)
            \<and> ((\<forall>c \<in> set CARS. \<not> seat_filter s c) \<longrightarrow> results resp = [])"
    if int: "js_isInteger s \<or> s = PosInf \<or> s = NegInf"
      and none: "\<forall>c \<in> set CARS. \<not> (seat_filter s c \<and> type_filter t c)"
  proof -
    define xs where "xs = map (penalised s b) (filter (seat_filter s) CARS)"
    have rel: "map (relaxed_of s b) (filter (\<lambda>c. js_ge (minSeats c) s) CARS) = xs"
      by (simp add: xs_def fallback_filter [OF int] relaxed_of_penalised [abs_def])
    have res: "results resp = take 5 (js_sort by_score xs)"
      using search_coerced_relaxed [OF none, of b] r by (simp add: rel)
    have "\<forall>y \<in> set xs. score y \<noteq> NaN"
      using relaxed_of_score_not_NaN [OF _ sn bn]
      by (auto simp: rel [symmetric])
    then have "sorted_wrt score_le (js_sort by_score xs)" by (rule sorted_js_sort)
    moreover have "mset (js_sort by_score xs) = mset xs" by (rule mset_js_sort)
    ultimately have A: "\<exists>ys. mset ys = mset xs \<and> sorted_wrt score_le ys
        \<and> results resp = take 5 ys"
      using res by blast
    have B: "results resp = []" if "\<forall>c \<in> set CARS. \<not> seat_filter s c"
    proof -
      from that have "xs = []" by (simp add: xs_def filter_empty_conv)
      then show ?thesis by (simp add: res js_sort_def)
    qed
    from A B show ?thesis unfolding xs_def by blast
  qed
  from 1 2 show ?thesis by blast
qed

theorem search_fallback_witness:
  "js_isInteger (Fin 5)
   \<and> search plain_builtins hovercar_request = Inr (search_coerced (Fin 5) (Fin 30000) ''hovercar'')
   \<and> relaxed (search_coerced (Fin 5) (Fin 30000) ''hovercar'')
   \<and> (\<exists>ys. mset ys = mset (map (penalised (Fin 5) (Fin 30000)) (filter (seat_filter (Fin 5)) CARS))
          \<and> sorted_wrt score_le ys
          \<and> results (search_coerced (Fin 5) (Fin 30000) ''hovercar'') = take 5 ys)
   \<and> search plain_builtins luxury_request = Inr (search_coerced (Fin 5) (Fin 30000) ''luxury'')
   \<and> \<not> relaxed (search_coerced (Fin 5) (Fin 30000) ''luxury'')"
proof -
  note h = search_fallback [OF search_hovercar [of plain_builtins] hovercar_coerced [of plain_builtins]]
  note l = search_fallback [OF search_luxury [of plain_builtins] luxury_coerced [of plain_builtins]]
  have i: "js_isInteger (Fin 5)" by (simp add: js_isInteger_def)
  have none: "\<forall>c \<in> set CARS. \<not> (seat_filter (Fin 5) c \<and> type_filter ''hovercar'' c)"
    by (simp add: CARS_def type_filter_def)
  have some: "\<not> (\<forall>c \<in> set CARS. \<not> (seat_filter (Fin 5) c \<and> type_filter ''luxury'' c))"
    by (simp add: CARS_def type_filter_def seat_filter_def js_ge_def js_le_def)
  from h none have hr: "relaxed (search_coerced (Fin 5) (Fin 30000) ''hovercar'')" by blast
  from h i none have
    "\<exists>ys. mset ys = mset (map (penalised (Fin 5) (Fin 30000)) (filter (seat_filter (Fin 5)) CARS))
          \<and> sorted_wrt score_le ys
          \<and> results (search_coerced (Fin 5) (Fin 30000) ''hovercar'') = take 5 ys"
    by blast
  moreover from l some have "\<not> relaxed (search_coerced (Fin 5) (Fin 30000) ''luxury'')" by blast
  ultimately show ?thesis using i hr by (simp add: search_hovercar search_luxury)
qed

section \<open>The penalty of the relaxed pass\<close>

lemma relaxed_member:
  assumes "r \<in> set (take n (js_sort by_score (map (relaxed_of s b) (filter P CARS))))"
  shows "\<exists>c \<in> set CARS. P c \<and> r = relaxed_of s b c"
proof -
  from assms have "r \<in> set (js_sort by_score (map (relaxed_of s b) (filter P CARS)))"
    by (rule in_set_takeD)
  then show ?thesis by (auto simp: set_js_sort)
qed


lemma js_add_representable: "js_add a b = Fin v \<Longrightarrow> round_binary64 v = Fin v"
  by (cases a; cases b) (auto dest: round_binary64_idem split: if_splits)

lemma add_penalty_ge:
  assumes rep: "round_binary64 v = Fin v" and v: "0 \<le> v"
  shows "js_le (Fin v) (js_add (Fin v) (Fin 10000))"
proof (cases "v = 0")
  case True
  then show ?thesis by (simp add: js_le_def)
next
  case False
  with v have pos: "0 < v" by simp
  from round_binary64_rep_ge [OF rep pos, of "v + 10000"]
  show ?thesis by (auto simp: js_le_def)
qed

lemma add_penalty_exact:
  assumes "0 \<le> k" and "k \<le> 2 ^ 53 - 10000"
  shows "js_add (Fin (of_int k)) (Fin 10000) = Fin (of_int k + 10000)"
proof -
  have "\<bar>k + 10000\<bar> \<le> 2 ^ 53" using assms by simp
  from round_binary64_of_int [OF this] show ?thesis by simp
qed

lemma round_half_even_near:
  assumes "\<bar>r - of_int n\<bar> < 1 / 2"
  shows "round_half_even r = n"
proof (cases "of_int n \<le> r")
  case True
  with assms have "\<lfloor>r\<rfloor> = n" by (intro floor_unique) linarith+
  with assms True show ?thesis by (simp add: round_half_even_def Let_def)
next
  case False
  with assms have f: "\<lfloor>r\<rfloor> = n - 1" by (intro floor_unique) (simp, linarith)+
  have "1 / 2 < r - of_int (n - 1)" using assms False by simp
  with f show ?thesis by (simp add: round_half_even_def Let_def)
qed

lemma absorbed_near_1e22:
  assumes "\<bar>d\<bar> < 1048576"
  shows "round_binary64 (10000000000000000000000 + d) = Fin 10000000000000000000000"
proof -
  define x :: rat where "x = 10000000000000000000000 + d"
  have lo: "2 powi 73 \<le> \<bar>x\<bar>" and hi: "\<bar>x\<bar> < 2 powi (73 + 1)"
    using assms by (simp_all add: x_def)
  have e: "floor_log2 x = 73" using lo hi by (rule floor_log2_unique)
  have "x / 2 powi (floor_log2 x - 52) = x / 2097152" by (simp add: e)
  also have "\<dots> = of_int 4768371582031250 + d / 2097152" by (simp add: x_def add_divide_distrib)
  finally have "x / 2 powi (floor_log2 x - 52) = of_int 4768371582031250 + d / 2097152" .
  moreover have "\<bar>d / 2097152\<bar> < 1 / 2" using assms by simp
  ultimately have "round_half_even (x / 2 powi (floor_log2 x - 52)) = 4768371582031250"
    by (intro round_half_even_near) simp
  then have "round_to_53 x = 10000000000000000000000"
    by (simp add: round_to_53_def e)
  moreover have "x \<noteq> 0" using lo by auto
  ultimately show ?thesis by (simp add: round_binary64_def x_def [symmetric])
qed

lemma absorbed_values:
  "round_binary64 9999999999999999945000 = Fin 10000000000000000000000"
  "round_binary64 9999999999999999955000 = Fin 10000000000000000000000"
  "round_binary64 9999999999999999890000 = Fin 10000000000000000000000"
  "round_binary64 10000000000000000000000 = Fin 10000000000000000000000"
  "round_binary64 10000000000000000010000 = Fin 10000000000000000000000"
  using absorbed_near_1e22 [of "- 55000"] absorbed_near_1e22 [of "- 45000"]
    absorbed_near_1e22 [of "- 110000"] absorbed_near_1e22 [of 0] absorbed_near_1e22 [of 10000]
  by simp_all


text \<open>
  C6, as stated for every budget, fails where binary64 addition absorbs the penalty: for
  the body \<open>{"seats": 7, "budget": 1e22, "type": "hovercar"}\<close> the answer is relaxed
  and every returned score is \<open>1e22\<close>, which is also the score of the same record in
  a non-relaxed pass, so no score is 10000 higher.
\<close>

theorem search_unmatched_type_absorbed_counterexample:
  "search plain_builtins huge_budget_request
     = Inr (search_coerced (Fin 7) (Fin 10000000000000000000000) ''hovercar'')
   \<and> relaxed (search_coerced (Fin 7) (Fin 10000000000000000000000) ''hovercar'')
   \<and> map (\<lambda>r. (r_model r, score r))
         (results (search_coerced (Fin 7) (Fin 10000000000000000000000) ''hovercar''))
       = [(''Kia Telluride'', Fin 10000000000000000000000),
          (''Honda Odyssey'', Fin 10000000000000000000000),
          (''Cadillac Escalade'', Fin 10000000000000000000000)]
   \<and> map (\<lambda>c. (model c, score (match_of (Fin 7) (Fin 10000000000000000000000) c)))
         [CARS ! 2, CARS ! 3, CARS ! 7]
       = [(''Kia Telluride'', Fin 10000000000000000000000),
          (''Honda Odyssey'', Fin 10000000000000000000000),
          (''Cadillac Escalade'', Fin 10000000000000000000000)]"
  by (simp add: search_huge_budget eval_defs absorbed_values)

text \<open>
  C6 (amended). For every seats and budget and every type that no catalog record
  matches, the answer has \<open>relaxed = true\<close>, and every result is the result the same
  record gets in a non-relaxed pass with the same seats and budget, except for its score:
  that is the non-relaxed score plus the fixed 10000 penalty as binary64 addition rounds
  the sum. It is never lower than the non-relaxed score, and it is exactly 10000 higher
  whenever the non-relaxed score is an integer of at most \<open>2^53 - 10000\<close>.
\<close>

theorem search_unmatched_type:
  assumes "search B body = Inr resp" and "wantSeats_of B body = Inr s"
    and "wantBudget_of B body = Inr b" and "wantType_of B body = Inr t"
    and "\<forall>c \<in> set CARS. \<not> type_filter t c"
  shows "relaxed resp
       \<and> (\<forall>r \<in> set (results resp). \<exists>c \<in> set CARS.
             r = (match_of s b c)\<lparr>score := js_add (score (match_of s b c)) (Fin 10000)\<rparr>
             \<and> js_le (score (match_of s b c)) (score r)
             \<and> (\<forall>k. score (match_of s b c) = Fin (of_int k) \<and> k \<le> 2 ^ 53 - 10000
                    \<longrightarrow> score r = Fin (of_int k + 10000)))"
proof -
  have none: "\<forall>c \<in> set CARS. \<not> (seat_filter s c \<and> type_filter t c)"
    using assms(5) by simp
  have resp: "resp = \<lparr>results = take 5 (js_sort by_score (map (relaxed_of s b)
                   (filter (\<lambda>c. js_ge (minSeats c) s) CARS))), relaxed = True\<rparr>"
    using search_coerced_relaxed [OF none, of b] search_resp [OF assms(1-4)] by simp
  have sn: "s \<noteq> NaN" and bn: "b \<noteq> NaN"
    using wantSeats_of_not_NaN [OF assms(2)] wantBudget_of_not_NaN [OF assms(3)] by simp_all
  have "\<exists>c \<in> set CARS.
             r = (match_of s b c)\<lparr>score := js_add (score (match_of s b c)) (Fin 10000)\<rparr>
             \<and> js_le (score (match_of s b c)) (score r)
             \<and> (\<forall>k. score (match_of s b c) = Fin (of_int k) \<and> k \<le> 2 ^ 53 - 10000
                    \<longrightarrow> score r = Fin (of_int k + 10000))"
    if "r \<in> set (results resp)" for r
  proof -
    from that resp obtain c where c: "c \<in> set CARS" and r: "r = relaxed_of s b c"
      using relaxed_member [of r 5 s b "\<lambda>c. js_ge (minSeats c) s"] by auto
    define nr where "nr = score (match_of s b c)"
    have nr: "nr = base_score s b c" by (simp add: nr_def match_of_def)
    have eq: "score r = js_add nr (Fin 10000)"
      by (simp add: r relaxed_of_def nr)
    have nn: "js_le (Fin 0) nr" using base_score_nonneg [OF c sn bn] by (simp add: nr)
    have ge: "js_le nr (score r)"
    proof (cases nr)
      case (Fin v)
      have "round_binary64 v = Fin v"
        using Fin by (intro js_add_representable) (simp add: nr base_score_def)
      moreover have "0 \<le> v" using nn Fin by (simp add: js_le_def)
      ultimately show ?thesis using add_penalty_ge [of v] by (simp add: eq Fin)
    qed (use nn in \<open>simp_all add: eq js_le_def\<close>)
    have ex: "score r = Fin (of_int k + 10000)"
      if "nr = Fin (of_int k) \<and> k \<le> 2 ^ 53 - 10000" for k
    proof -
      from that nn have "(0::rat) \<le> of_int k" by (simp add: js_le_def)
      then have "0 \<le> k" by simp
      with that show ?thesis using add_penalty_exact [of k] by (simp add: eq)
    qed
    have "r = (match_of s b c)\<lparr>score := js_add (score (match_of s b c)) (Fin 10000)\<rparr>"
      by (simp add: r relaxed_of_def match_of_def)
    with c ge ex show ?thesis unfolding nr_def by blast
  qed
  then show ?thesis using resp by simp
qed

theorem search_unmatched_type_witness:
  "search plain_builtins hovercar_request = Inr (search_coerced (Fin 5) (Fin 30000) ''hovercar'')
   \<and> relaxed (search_coerced (Fin 5) (Fin 30000) ''hovercar'')
   \<and> hd (results (search_coerced (Fin 5) (Fin 30000) ''hovercar''))
       = (match_of (Fin 5) (Fin 30000) (CARS ! 0))\<lparr>score := Fin 10000\<rparr>
   \<and> score (match_of (Fin 5) (Fin 30000) (CARS ! 0)) = Fin 0"
proof -
  have none: "\<forall>c \<in> set CARS. \<not> type_filter ''hovercar'' c"
    by (simp add: CARS_def type_filter_def)
  note T = search_unmatched_type [OF search_hovercar [of plain_builtins] hovercar_coerced [of plain_builtins] none]
  have "hd (results (search_coerced (Fin 5) (Fin 30000) ''hovercar''))
       = (match_of (Fin 5) (Fin 30000) (CARS ! 0))\<lparr>score := Fin 10000\<rparr>"
    by (simp add: eval_defs)
  moreover have "score (match_of (Fin 5) (Fin 30000) (CARS ! 0)) = Fin 0"
    by (simp add: eval_defs)
  ultimately show ?thesis using T by (simp add: search_hovercar)
qed

section \<open>The seat term of the score\<close>





section \<open>The luxury search\<close>

lemma luxury_results:
  "map (\<lambda>r. (r_model r, typeMatches r)) (results (search_coerced (Fin 5) (Fin 30000) ''luxury''))
     = [(''Mercedes-Benz S-Class'', [''luxury'', ''sedan'']),
        (''BMW 7 Series'', [''luxury'', ''sedan'']),
        (''Lexus LS'', [''luxury'', ''sedan'', ''comfort'']),
        (''Cadillac Escalade'', [''luxury'', ''suv'']),
        (''Tesla Model S'', [''luxury'', ''electric'', ''sedan''])]"
  by (simp add: eval_defs)

text \<open>
  C8. On the fixed catalog, the search with seats 5, budget 30000 and type
  \<open>luxury\<close> returns a results list that includes both the Mercedes-Benz S-Class and
  the Tesla Model S, and each of the two has \<open>luxury\<close> among its \<open>typeMatches\<close>.
\<close>

theorem search_luxury_includes:
  "\<exists>resp. search B luxury_request = Inr resp
     \<and> (\<exists>r \<in> set (results resp). r_model r = ''Mercedes-Benz S-Class'')
     \<and> (\<exists>r \<in> set (results resp). r_model r = ''Tesla Model S'')
     \<and> (\<forall>r \<in> set (results resp).
           r_model r = ''Mercedes-Benz S-Class'' \<or> r_model r = ''Tesla Model S''
           \<longrightarrow> ''luxury'' \<in> set (typeMatches r))"
proof -
  let ?rs = "results (search_coerced (Fin 5) (Fin 30000) ''luxury'')"
  let ?f = "\<lambda>r. (r_model r, typeMatches r)"
  have img: "?f ` set ?rs =
     {(''Mercedes-Benz S-Class'', [''luxury'', ''sedan'']),
      (''BMW 7 Series'', [''luxury'', ''sedan'']),
      (''Lexus LS'', [''luxury'', ''sedan'', ''comfort'']),
      (''Cadillac Escalade'', [''luxury'', ''suv'']),
      (''Tesla Model S'', [''luxury'', ''electric'', ''sedan''])}"
    using arg_cong [OF luxury_results, of set] by simp
  have 1: "\<exists>r \<in> set ?rs. r_model r = ''Mercedes-Benz S-Class''"
  proof -
    have "(''Mercedes-Benz S-Class'', [''luxury'', ''sedan'']) \<in> ?f ` set ?rs"
      unfolding img by simp
    then show ?thesis by auto
  qed
  have 2: "\<exists>r \<in> set ?rs. r_model r = ''Tesla Model S''"
  proof -
    have "(''Tesla Model S'', [''luxury'', ''electric'', ''sedan'']) \<in> ?f ` set ?rs"
      unfolding img by simp
    then show ?thesis by auto
  qed
  have 3: "''luxury'' \<in> set (typeMatches r)" if "r \<in> set ?rs" for r
  proof -
    from that have "?f r \<in> ?f ` set ?rs" by (rule imageI)
    then show ?thesis unfolding img by auto
  qed
  show ?thesis using 1 2 3 search_luxury [of B] by blast
qed

theorem search_luxury_includes_witness:
  "search plain_builtins luxury_request = Inr (search_coerced (Fin 5) (Fin 30000) ''luxury'')
   \<and> r_model (results (search_coerced (Fin 5) (Fin 30000) ''luxury'') ! 0) = ''Mercedes-Benz S-Class''
   \<and> ''luxury'' \<in> set (typeMatches (results (search_coerced (Fin 5) (Fin 30000) ''luxury'') ! 0))
   \<and> r_model (results (search_coerced (Fin 5) (Fin 30000) ''luxury'') ! 4) = ''Tesla Model S''
   \<and> ''luxury'' \<in> set (typeMatches (results (search_coerced (Fin 5) (Fin 30000) ''luxury'') ! 4))"
proof -
  let ?rs = "results (search_coerced (Fin 5) (Fin 30000) ''luxury'')"
  from search_luxury_includes [of plain_builtins]
  have all: "\<forall>r \<in> set ?rs.
           r_model r = ''Mercedes-Benz S-Class'' \<or> r_model r = ''Tesla Model S''
           \<longrightarrow> ''luxury'' \<in> set (typeMatches r)"
    by (simp add: search_luxury)
  have len: "length ?rs = 5"
    using arg_cong [OF luxury_results, of length] by simp
  have n0: "r_model (?rs ! 0) = ''Mercedes-Benz S-Class''"
    using arg_cong [OF luxury_results, of "\<lambda>xs. fst (xs ! 0)"] len by simp
  have n4: "r_model (?rs ! 4) = ''Tesla Model S''"
    using arg_cong [OF luxury_results, of "\<lambda>xs. fst (xs ! 4)"] len by simp
  have "?rs ! 0 \<in> set ?rs" "?rs ! 4 \<in> set ?rs" using len by simp_all
  with all n0 n4 show ?thesis by (simp add: search_luxury)
qed

section \<open>A request that is not coerced\<close>

text \<open>
  C7. The handler is to answer every request body, coercing each input to a default
  where it is malformed. The code does so only as far as \<open>Number\<close> and \<open>String\<close>
  return: for the body \<open>{"seats": {"toString": 0}}\<close> the conversion
  \<open>Number(seats)\<close> throws a TypeError before the default \<open>|| 4\<close> is reached, and
  nothing in the handler catches it.
\<close>

theorem search_toString_throws: "search B toString_request = Inl TypeError"
  by (simp add: toString_request_def search_def wantSeats_of_def js_String_def)

end
